theory Spec2Isabelle
  imports Main
begin

section \<open>Strings\<close>

text \<open>
  JavaScript strings are modelled as \<^typ>\<open>string\<close>: lists of code units below 256.
  \<open>is_space\<close> is the set matched by \<^verbatim>\<open>\s\<close> and removed by \<^verbatim>\<open>String.prototype.trim\<close>
  (WhiteSpace and LineTerminator) restricted to that range: TAB, LF, VT, FF, CR, SP and
  NBSP.
\<close>

definition is_space :: "char \<Rightarrow> bool" where
  "is_space c \<longleftrightarrow>
     c \<in> set [CHR 0x09, CHR 0x0A, CHR 0x0B, CHR 0x0C, CHR 0x0D, CHR 0x20, CHR 0xA0]"

definition trim :: "string \<Rightarrow> string" where
  "trim s = rev (dropWhile is_space (rev (dropWhile is_space s)))"

text \<open>\<^verbatim>\<open>s.endsWith(suffix)\<close>\<close>

definition ends_with :: "string \<Rightarrow> string \<Rightarrow> bool" where
  "ends_with suffix s \<longleftrightarrow>
     length suffix \<le> length s \<and> drop (length s - length suffix) s = suffix"

text \<open>
  \<^verbatim>\<open>toLowerCase\<close> on code units below 256: the ASCII capitals and the Latin-1 capitals
  (0xC0 to 0xDE without the multiplication sign 0xD7) move up by 32.
\<close>

definition lower_char :: "char \<Rightarrow> char" where
  "lower_char c =
     (let n = (of_char c :: nat)
      in if (65 \<le> n \<and> n \<le> 90) \<or> (192 \<le> n \<and> n \<le> 222 \<and> n \<noteq> 215)
         then char_of (n + 32) else c)"

definition toLowerCase :: "string \<Rightarrow> string" where
  "toLowerCase s = map lower_char s"

text \<open>\<^verbatim>\<open>args.join(" ")\<close>\<close>

fun join_with :: "string \<Rightarrow> string list \<Rightarrow> string" where
  "join_with sep [] = []"
| "join_with sep [x] = x"
| "join_with sep (x # y # ys) = x @ sep @ join_with sep (y # ys)"

text \<open>Decimal rendering of a number inside a template literal.\<close>

fun show_nat :: "nat \<Rightarrow> string" where
  "show_nat n =
     (if n < 10 then [''0123456789'' ! n]
      else show_nat (n div 10) @ [''0123456789'' ! (n mod 10)])"


section \<open>The environment of the server\<close>

text \<open>
  The file system is the set of calls the server makes on it: \<^verbatim>\<open>fs.existsSync\<close>,
  \<^verbatim>\<open>fs.readdirSync\<close> (\<open>None\<close> where the call throws), and the reading of the
  document part of a package: \<^verbatim>\<open>new AdmZip(path)\<close> followed by
  \<^verbatim>\<open>getEntry("word/document.xml")\<close> and \<^verbatim>\<open>readAsText\<close>, which gives \<open>None\<close> where
  one of them throws and the empty text where the package has no such entry.
  \<^verbatim>\<open>path.join\<close> is a function of the platform and is taken as a parameter.
\<close>

record filesys =
  existsSync :: "string \<Rightarrow> bool"
  readdirSync :: "string \<Rightarrow> string list option"
  readDocumentXml :: "string \<Rightarrow> string option"

record server_env =
  PROJECT_ROOT :: string
  PYTHON_EXEC :: "string option"
  platform :: string
  path_join :: "string list \<Rightarrow> string"

definition INPUTS_DIR :: "server_env \<Rightarrow> string" where
  "INPUTS_DIR env = path_join env [PROJECT_ROOT env, ''inputs'']"

definition OUTPUTS_DIR :: "server_env \<Rightarrow> string" where
  "OUTPUTS_DIR env = path_join env [PROJECT_ROOT env, ''outputs'']"


section \<open>POST /api/run\<close>

subsection \<open>The candidate list\<close>

definition candidates :: "server_env \<Rightarrow> filesys \<Rightarrow> string list" where
  "candidates env fs =
     (let venvWin = path_join env [PROJECT_ROOT env, ''.venv'', ''Scripts'', ''python.exe''];
          venvNix = path_join env [PROJECT_ROOT env, ''.venv'', ''bin'', ''python'']
      in (if existsSync fs venvWin then [venvWin] else [])
         @ (if existsSync fs venvNix then [venvNix] else [])
         @ (case PYTHON_EXEC env of
              None \<Rightarrow> []
            | Some p \<Rightarrow> if p \<noteq> [] \<and> trim p \<noteq> [] then [trim p] else [])
         @ (if platform env = ''win32'' then [''py''] else [])
         @ [''python'']
         @ [''python3''])"

subsection \<open>Responses\<close>

record report =
  ok :: bool
  code :: "int option"
  logs :: string
  files :: "string list"
  legacy_summaries :: bool
  legacy_flashcards :: bool
  legacy_formula_sheet :: bool
  outputs_summary :: string
  outputs_flashcards :: string
  outputs_formulas :: string
  outputs_preview :: string

datatype body =
    ErrorBody string
  | ErrorLogsBody string string
  | ReportBody report

datatype response = Response (status: nat) (payload: body)

subsection \<open>The state of one request\<close>

text \<open>
  Every call of \<^verbatim>\<open>tryNext\<close> that spawns creates a child with its own \<^verbatim>\<open>logs\<close> and
  \<^verbatim>\<open>started\<close> variables; \<^verbatim>\<open>responded\<close> is shared by all of them. \<open>sent\<close> lists the
  responses written to \<^verbatim>\<open>res\<close>, \<open>history\<close> the calls of \<^verbatim>\<open>recordHistory\<close>, and
  \<open>crashed\<close> records an exception that left a handler.
\<close>

record child =
  idx :: nat
  exe :: string
  child_logs :: string
  started :: bool

record run_state =
  children :: "child list"
  responded :: bool
  sent :: "response list"
  history :: "(string \<times> string \<times> string \<times> string list) list"
  crashed :: bool
  disk :: filesys

record run_request =
  cands :: "string list"
  inputDir :: string
  outDir :: string
  auth_userId :: "string option"
  join_path :: "string list \<Rightarrow> string"

definition spawn_args :: "run_request \<Rightarrow> string list" where
  "spawn_args rq = [''-m'', ''src.agent.cli'', inputDir rq, ''--out'', outDir rq]"

definition info_line :: "run_request \<Rightarrow> string \<Rightarrow> string" where
  "info_line rq e =
     ''[INFO] Trying Python: '' @ e @ '' '' @ join_with '' '' (spawn_args rq) @ [CHR 0x0A]"

definition tryNext :: "run_request \<Rightarrow> nat \<Rightarrow> run_state \<Rightarrow> run_state" where
  "tryNext rq i s =
     (if i \<ge> length (cands rq) then
        (if \<not> responded s then
           s\<lparr>responded := True,
             sent := sent s @ [Response 500 (ErrorBody
               ''Python not found. Set PYTHON_EXEC in .env or ensure python is on PATH.'')]\<rparr>
         else s)
      else
        (let e = cands rq ! i
         in s\<lparr>children := children s @
               [\<lparr>idx = i, exe = e, child_logs = info_line rq e, started = False\<rparr>]\<rparr>))"

text \<open>
  The events of the children, each naming the child by its position in \<open>children\<close>, and
  changes of the file system made by anyone while the request is open. \<^verbatim>\<open>spawn\<close> is
  taken to return a child in every case: a failure to launch arrives as the error event
  of that child. The order and the number of the events are left to the environment.
\<close>

datatype event =
    Stdout nat string
  | Stderr nat string
  | ChildError nat
  | ChildClose nat "int option"
  | DiskChange filesys

definition on_data :: "nat \<Rightarrow> string \<Rightarrow> run_state \<Rightarrow> run_state" where
  "on_data k d s =
     (let c = children s ! k
      in s\<lparr>children := (children s)[k := c\<lparr>started := True, child_logs := child_logs c @ d\<rparr>]\<rparr>)"

definition on_error :: "run_request \<Rightarrow> nat \<Rightarrow> run_state \<Rightarrow> run_state" where
  "on_error rq k s =
     (let c = children s ! k
      in if \<not> started c then tryNext rq (idx c + 1) s
         else if \<not> responded s then
           s\<lparr>responded := True,
             sent := sent s @ [Response 500 (ErrorLogsBody ''Python spawn error'' (child_logs c))]\<rparr>
         else s)"

definition on_close :: "run_request \<Rightarrow> nat \<Rightarrow> int option \<Rightarrow> run_state \<Rightarrow> run_state" where
  "on_close rq k cd s =
     (if \<not> responded s then
        (let c = children s ! k;
             is_ok = (cd = Some 0);
             s1 = s\<lparr>responded := True\<rparr>
         in case readdirSync (disk s) (outDir rq) of
              None \<Rightarrow> s1\<lparr>crashed := True\<rparr>
            | Some names \<Rightarrow>
               (let fls = filter (\<lambda>n. ends_with ''.docx'' (toLowerCase n)) names;
                    sum = join_path rq [outDir rq, ''summaries.docx''];
                    fc = join_path rq [outDir rq, ''flashcards.docx''];
                    fsheet = join_path rq [outDir rq, ''formula_sheet.docx''];
                    s2 = (case auth_userId rq of
                            Some u \<Rightarrow>
                              if is_ok \<and> u \<noteq> [] then
                                s1\<lparr>history := history s1 @
                                  [(u, ''AI processing completed'',
                                    ''Files: '' @ show_nat (length fls), fls)]\<rparr>
                              else s1
                          | None \<Rightarrow> s1)
                in s2\<lparr>sent := sent s2 @ [Response 200 (ReportBody
                     \<lparr>ok = is_ok, code = cd, logs = child_logs c, files = fls,
                      legacy_summaries = existsSync (disk s) sum,
                      legacy_flashcards = existsSync (disk s) fc,
                      legacy_formula_sheet = existsSync (disk s) fsheet,
                      outputs_summary = ''/api/download/summaries.docx'',
                      outputs_flashcards = ''/api/download/flashcards.docx'',
                      outputs_formulas = ''/api/download/formula_sheet.docx'',
                      outputs_preview = ''/api/summary-preview''\<rparr>)]\<rparr>))
      else s)"

text \<open>
  One event. A crashed process handles nothing, and an event of a child that was never
  spawned has no handler.
\<close>

fun step :: "run_request \<Rightarrow> event \<Rightarrow> run_state \<Rightarrow> run_state" where
  "step rq (DiskChange d) s = (if crashed s then s else s\<lparr>disk := d\<rparr>)"
| "step rq (Stdout k d) s =
     (if crashed s \<or> k \<ge> length (children s) then s else on_data k d s)"
| "step rq (Stderr k d) s =
     (if crashed s \<or> k \<ge> length (children s) then s else on_data k d s)"
| "step rq (ChildError k) s =
     (if crashed s \<or> k \<ge> length (children s) then s else on_error rq k s)"
| "step rq (ChildClose k cd) s =
     (if crashed s \<or> k \<ge> length (children s) then s else on_close rq k cd s)"

fun run_events :: "run_request \<Rightarrow> event list \<Rightarrow> run_state \<Rightarrow> run_state" where
  "run_events rq [] s = s"
| "run_events rq (e # es) s = run_events rq es (step rq e s)"

definition fresh :: "filesys \<Rightarrow> run_state" where
  "fresh d = \<lparr>children = [], responded = False, sent = [], history = [],
              crashed = False, disk = d\<rparr>"

definition make_request :: "server_env \<Rightarrow> filesys \<Rightarrow> string option \<Rightarrow> run_request" where
  "make_request env d u =
     \<lparr>cands = candidates env d, inputDir = INPUTS_DIR env, outDir = OUTPUTS_DIR env,
      auth_userId = u, join_path = path_join env\<rparr>"

text \<open>
  The handler up to the first call of \<^verbatim>\<open>tryNext\<close>. \<^verbatim>\<open>readdirSync\<close> on the input
  directory throws when the path exists and is not a directory; the handler is
  \<^verbatim>\<open>async\<close>, so the exception rejects its promise and nothing is sent.
\<close>

definition run_start :: "server_env \<Rightarrow> filesys \<Rightarrow> string option \<Rightarrow> run_state" where
  "run_start env d u =
     (if \<not> existsSync d (INPUTS_DIR env) then
        (fresh d)\<lparr>sent := [Response 400 (ErrorBody ''No uploaded files in inputs/'')]\<rparr>
      else case readdirSync d (INPUTS_DIR env) of
        None \<Rightarrow> (fresh d)\<lparr>crashed := True\<rparr>
      | Some entries \<Rightarrow>
          if length entries = 0 then
            (fresh d)\<lparr>sent := [Response 400 (ErrorBody ''No uploaded files in inputs/'')]\<rparr>
          else tryNext (make_request env d u) 0 (fresh d))"

text \<open>
  The whole request. After the early return of the handler no child exists, so no event
  has a handler.
\<close>

definition api_run :: "server_env \<Rightarrow> filesys \<Rightarrow> string option \<Rightarrow> event list \<Rightarrow> run_state" where
  "api_run env d u es = run_events (make_request env d u) es (run_start env d u)"

subsection \<open>Notions used to state the properties of the job runner\<close>

text \<open>The interpreters of the local virtual environment that exist, in the order tried.\<close>

definition venv_candidates :: "server_env \<Rightarrow> filesys \<Rightarrow> string list" where
  "venv_candidates env fs =
     filter (existsSync fs)
       [path_join env [PROJECT_ROOT env, ''.venv'', ''Scripts'', ''python.exe''],
        path_join env [PROJECT_ROOT env, ''.venv'', ''bin'', ''python'']]"

text \<open>
  At most one response has been written, and one written while children exist was
  written under the \<^verbatim>\<open>responded\<close> flag.
\<close>

definition settled_once :: "run_state \<Rightarrow> bool" where
  "settled_once s \<longleftrightarrow>
     length (sent s) \<le> 1 \<and> (sent s \<noteq> [] \<longrightarrow> responded s \<or> children s = [])"


text \<open>A process with children only dies inside the close handler, after raising the flag.\<close>

definition alive :: "run_state \<Rightarrow> bool" where
  "alive s \<longleftrightarrow> (crashed s \<longrightarrow> responded s \<or> children s = [])"

text \<open>An error event of a child other than \<open>k\<close>.\<close>

definition foreign_error :: "nat \<Rightarrow> event \<Rightarrow> bool" where
  "foreign_error k e \<longleftrightarrow> (case e of ChildError j \<Rightarrow> j \<noteq> k | _ \<Rightarrow> False)"

text \<open>Output chunks of child \<open>k\<close>; the flag says that the chunk came on stderr.\<close>

definition data_events :: "nat \<Rightarrow> (bool \<times> string) list \<Rightarrow> event list" where
  "data_events k ds = map (\<lambda>(is_err, d). if is_err then Stderr k d else Stdout k d) ds"

text \<open>\<^verbatim>\<open>hay.includes(needle)\<close>\<close>

fun has_substring :: "string \<Rightarrow> string \<Rightarrow> bool" where
  "has_substring needle [] \<longleftrightarrow> needle = []"
| "has_substring needle (c # cs) \<longleftrightarrow>
     take (length needle) (c # cs) = needle \<or> has_substring needle cs"

subsection \<open>Concrete environments\<close>

definition demo_env :: server_env where
  "demo_env = \<lparr>PROJECT_ROOT = ''/srv/app'', PYTHON_EXEC = Some '' /opt/py/bin/python3.11 '',
               platform = ''linux'', path_join = join_with ''/''\<rparr>"

definition plain_env :: server_env where
  "plain_env = \<lparr>PROJECT_ROOT = ''/srv/app'', PYTHON_EXEC = None,
               platform = ''linux'', path_join = join_with ''/''\<rparr>"

definition empty_disk :: filesys where
  "empty_disk =
     \<lparr>existsSync = (\<lambda>p. p \<in> set [''/srv/app/inputs'', ''/srv/app/outputs'']),
      readdirSync = (\<lambda>p. if p \<in> set [''/srv/app/inputs'', ''/srv/app/outputs'']
                         then Some [] else None),
      readDocumentXml = (\<lambda>p. None)\<rparr>"

definition venv_disk :: filesys where
  "venv_disk =
     \<lparr>existsSync = (\<lambda>p. p \<in> set [''/srv/app/inputs'', ''/srv/app/outputs'',
                                  ''/srv/app/.venv/bin/python'']),
      readdirSync = (\<lambda>p. if p = ''/srv/app/inputs'' then Some [''notes.pdf'']
                         else if p = ''/srv/app/outputs'' then Some [] else None),
      readDocumentXml = (\<lambda>p. None)\<rparr>"

definition notes_disk :: filesys where
  "notes_disk =
     \<lparr>existsSync = (\<lambda>p. p \<in> set [''/srv/app/inputs'', ''/srv/app/outputs'',
                                  ''/srv/app/outputs/summaries.docx'']),
      readdirSync = (\<lambda>p. if p = ''/srv/app/inputs'' then Some [''notes.pdf'']
                         else if p = ''/srv/app/outputs''
                         then Some [''summaries.docx'', ''Extra.DOCX'', ''run.log'']
                         else None),
      readDocumentXml = (\<lambda>p. None)\<rparr>"

section \<open>Regular expressions\<close>

text \<open>
  The patterns of the server use character classes, sequence, alternation, the greedy
  and the lazy star, one capture group and the end anchor. \<open>ms r (c, s)\<close> lists, in
  the order in which a backtracking matcher tries them, the ways in which \<open>r\<close> can match
  a prefix of \<open>s\<close>: each with the text of the capture group so far and the rest of the
  input. As in ECMAScript, an iteration of a star that consumes nothing is rejected, and
  \<^verbatim>\<open>$\<close> (without the \<^verbatim>\<open>m\<close> flag) holds at the end of the input only.
\<close>

datatype rx =
    Atom "char \<Rightarrow> bool"
  | Eps
  | Seq rx rx
  | Alt rx rx
  | Star rx
  | Lazy rx
  | Group rx
  | Eol

type_synonym mstate = "string option \<times> string"

fun ms :: "rx \<Rightarrow> mstate \<Rightarrow> mstate list" where
  "ms (Atom p) (c, s) = (case s of [] \<Rightarrow> [] | x # xs \<Rightarrow> if p x then [(c, xs)] else [])"
| "ms Eps st = [st]"
| "ms (Seq a b) st = concat (map (ms b) (ms a st))"
| "ms (Alt a b) st = ms a st @ ms b st"
| "ms (Star a) (c, s) =
     concat (map (\<lambda>(c', s'). if length s' < length s then ms (Star a) (c', s') else [])
                 (ms a (c, s)))
     @ [(c, s)]"
| "ms (Lazy a) (c, s) =
     (c, s) #
     concat (map (\<lambda>(c', s'). if length s' < length s then ms (Lazy a) (c', s') else [])
                 (ms a (c, s)))"
| "ms (Group a) (c, s) =
     map (\<lambda>(c', s'). (Some (take (length s - length s') s), s')) (ms a (c, s))"
| "ms Eol (c, s) = (if s = [] then [(c, s)] else [])"

text \<open>\<^verbatim>\<open>r+\<close> and \<^verbatim>\<open>r?\<close>\<close>

definition Plus :: "rx \<Rightarrow> rx" where
  "Plus r = Seq r (Star r)"

definition Opt :: "rx \<Rightarrow> rx" where
  "Opt r = Alt r Eps"

text \<open>
  A literal character, and a literal character under the \<^verbatim>\<open>i\<close> flag. Without the
  \<^verbatim>\<open>u\<close> flag two code units are equal under \<^verbatim>\<open>i\<close> when their upper-case forms are;
  for the ASCII letters of the patterns here that is equality up to ASCII case, and for
  the other characters of the patterns it is equality.
\<close>

definition ch :: "char \<Rightarrow> rx" where
  "ch c = Atom (\<lambda>x. x = c)"

definition ascii_fold :: "char \<Rightarrow> nat" where
  "ascii_fold c =
     (let n = (of_char c :: nat) in if 65 \<le> n \<and> n \<le> 90 then n + 32 else n)"

definition ci :: "char \<Rightarrow> rx" where
  "ci c = Atom (\<lambda>x. ascii_fold x = ascii_fold c)"

fun lit :: "string \<Rightarrow> rx" where
  "lit [] = Eps"
| "lit (c # cs) = Seq (ch c) (lit cs)"

fun liti :: "string \<Rightarrow> rx" where
  "liti [] = Eps"
| "liti (c # cs) = Seq (ci c) (liti cs)"

text \<open>The classes \<^verbatim>\<open>\s\<close>, \<^verbatim>\<open>\S\<close>, \<^verbatim>\<open>\d\<close>, \<^verbatim>\<open>.\<close> and \<^verbatim>\<open>[A-Za-z]\<close>.\<close>

definition is_digit :: "char \<Rightarrow> bool" where
  "is_digit c \<longleftrightarrow> (let n = (of_char c :: nat) in 48 \<le> n \<and> n \<le> 57)"

definition is_dot :: "char \<Rightarrow> bool" where
  "is_dot c \<longleftrightarrow> c \<noteq> CHR 0x0A \<and> c \<noteq> CHR 0x0D"

definition ascii_letter :: "char \<Rightarrow> bool" where
  "ascii_letter c \<longleftrightarrow>
     (let n = (of_char c :: nat) in (65 \<le> n \<and> n \<le> 90) \<or> (97 \<le> n \<and> n \<le> 122))"

definition ws :: rx where
  "ws = Atom is_space"

text \<open>
  \<^verbatim>\<open>re.test(s)\<close> for a pattern that starts with \<^verbatim>\<open>^\<close> (the rest of the pattern is
  \<open>r\<close>): the match is tried at index 0 only.
\<close>

definition test_at :: "rx \<Rightarrow> string \<Rightarrow> bool" where
  "test_at r s \<longleftrightarrow> ms r (None, s) \<noteq> []"

text \<open>\<^verbatim>\<open>re.test(s)\<close> for a pattern without \<^verbatim>\<open>^\<close>: the match is tried at every index.\<close>

fun test_from :: "rx \<Rightarrow> string \<Rightarrow> bool" where
  "test_from r [] \<longleftrightarrow> test_at r []"
| "test_from r (x # xs) \<longleftrightarrow> test_at r (x # xs) \<or> test_from r xs"

text \<open>
  \<^verbatim>\<open>s.match(re)\<close> for a pattern that starts with \<^verbatim>\<open>^\<close>, read at index 1: the capture of
  the first match in backtracking order. In the patterns matched this way the group takes
  part in every match, so \<open>None\<close> is the \<^verbatim>\<open>null\<close> of a failed match.
\<close>

definition match_at :: "rx \<Rightarrow> string \<Rightarrow> string option" where
  "match_at r s = (case ms r (None, s) of [] \<Rightarrow> None | (c, rest) # _ \<Rightarrow> c)"

text \<open>
  \<^verbatim>\<open>s.replace(re, "")\<close> for a pattern that starts with \<^verbatim>\<open>^\<close> and has no \<^verbatim>\<open>g\<close> flag: the
  first match, if any, is cut off the front.
\<close>

definition replace_at :: "rx \<Rightarrow> string \<Rightarrow> string" where
  "replace_at r s = (case ms r (None, s) of [] \<Rightarrow> s | (c, rest) # _ \<Rightarrow> rest)"

text \<open>
  \<^verbatim>\<open>Array.from(s.matchAll(re)).map(m => m[1])\<close> for a pattern with the \<^verbatim>\<open>g\<close> flag: the
  matches from left to right, each search starting where the last match ended, one
  code unit further after an empty match.
\<close>

fun match_all :: "rx \<Rightarrow> string \<Rightarrow> string option list" where
  "match_all r [] = (case ms r (None, []) of [] \<Rightarrow> [] | (c, rest) # _ \<Rightarrow> [c])"
| "match_all r (x # xs) =
     (case ms r (None, x # xs) of
        [] \<Rightarrow> match_all r xs
      | (c, rest) # _ \<Rightarrow>
          if length rest < length (x # xs) then c # match_all r rest
          else c # match_all r xs)"

text \<open>
  \<^verbatim>\<open>s.split(re)\<close> for a separator without capture group. \<open>cur\<close> holds, reversed, the
  code units since the end of the last separator.
\<close>

fun split_go :: "rx \<Rightarrow> string \<Rightarrow> string \<Rightarrow> string list" where
  "split_go r cur [] = [rev cur]"
| "split_go r cur (x # xs) =
     (case ms r (None, x # xs) of
        [] \<Rightarrow> split_go r (x # cur) xs
      | (c, rest) # _ \<Rightarrow>
          if length rest < length (x # xs) then rev cur # split_go r [] rest
          else if cur = [] then split_go r [x] xs
          else rev cur # split_go r [x] xs)"

definition split_rx :: "rx \<Rightarrow> string \<Rightarrow> string list" where
  "split_rx r s =
     (if s = [] then (if ms r (None, []) \<noteq> [] then [] else [[]]) else split_go r [] s)"

section \<open>GET /api/download/:name\<close>

text \<open>A flashcard \<^verbatim>\<open>{ q, a }\<close>, and the replies of the download and preview endpoints.\<close>

datatype card = Card (question: string) (answer: string)

datatype reply =
    JsonError nat string
  | TextReply nat string
  | HtmlReply string
  | CardsReply "card list"
  | FileDownload string string

text \<open>\<^verbatim>\<open>/^[A-Za-z0-9_.-]+\.docx$/\<close>\<close>

definition safe_char :: "char \<Rightarrow> bool" where
  "safe_char c \<longleftrightarrow>
     ascii_letter c \<or> is_digit c \<or> c = CHR ''_'' \<or> c = CHR ''.'' \<or> c = CHR ''-''"

definition safe :: rx where
  "safe = Seq (Plus (Atom safe_char)) (Seq (lit ''.docx'') Eol)"

definition download :: "server_env \<Rightarrow> filesys \<Rightarrow> string \<Rightarrow> reply" where
  "download env fs name =
     (if \<not> test_at safe name then TextReply 400 ''Invalid file''
      else
        (let filePath = path_join env [OUTPUTS_DIR env, name]
         in if \<not> existsSync fs filePath then TextReply 404 ''Not found''
            else FileDownload filePath name))"


section \<open>The preview endpoints\<close>

subsection \<open>The \<^verbatim>\<open>file\<close> parameter\<close>

text \<open>
  A value of \<^verbatim>\<open>req.query\<close> is a string, an array or an object; \<open>None\<close> is a missing
  parameter. \<^verbatim>\<open>(req.query.file || "").toString()\<close> joins an array with commas and
  prints an object as \<^verbatim>\<open>[object Object]\<close>; the only values replaced by \<^verbatim>\<open>""\<close> are
  the missing parameter and the empty string.
\<close>

datatype qval = QStr string | QArr "qval list" | QObj

fun qval_toString :: "qval \<Rightarrow> string" where
  "qval_toString (QStr s) = s"
| "qval_toString (QArr vs) = join_with '','' (map qval_toString vs)"
| "qval_toString QObj = ''[object Object]''"

definition file_param :: "qval option \<Rightarrow> string" where
  "file_param v = (case v of None \<Rightarrow> [] | Some x \<Rightarrow> qval_toString x)"

definition docx_path :: "server_env \<Rightarrow> string \<Rightarrow> qval option \<Rightarrow> string" where
  "docx_path env dflt v =
     (let f = file_param v
      in path_join env [OUTPUTS_DIR env, if f \<noteq> [] \<and> ends_with ''.docx'' f then f else dflt])"

subsection \<open>Text runs\<close>

text \<open>\<^verbatim>\<open>/<w:t[^>]*>(.*?)<\/w:t>/g\<close>\<close>

definition run_rx :: rx where
  "run_rx =
     Seq (lit ''<w:t'')
       (Seq (Star (Atom (\<lambda>c. c \<noteq> CHR ''>'')))
         (Seq (ch CHR ''>'')
           (Seq (Group (Lazy (Atom is_dot))) (lit ''</w:t>''))))"

text \<open>The group of \<open>run_rx\<close> takes part in every match, so every \<^verbatim>\<open>m[1]\<close> is a string.\<close>

definition text_runs :: "string \<Rightarrow> string list" where
  "text_runs xml = concat (map (\<lambda>c. case c of None \<Rightarrow> [] | Some t \<Rightarrow> [t]) (match_all run_rx xml))"

text \<open>\<^verbatim>\<open>/(?:[A-Za-z]:\\|\\\\|\/)\S+\.(?:pdf|txt|docx)$/i\<close>\<close>

definition pathLike :: rx where
  "pathLike =
     Seq (Alt (Seq (Atom ascii_letter) (Seq (ch CHR '':'') (ch (CHR 0x5C))))
           (Alt (Seq (ch (CHR 0x5C)) (ch (CHR 0x5C))) (ch CHR ''/'')))
       (Seq (Plus (Atom (\<lambda>c. \<not> is_space c)))
         (Seq (ch CHR ''.'')
           (Seq (Alt (liti ''pdf'') (Alt (liti ''txt'') (liti ''docx''))) Eol)))"

definition preview_filter :: "string list \<Rightarrow> string list" where
  "preview_filter texts = filter (\<lambda>t. \<not> test_from pathLike t) texts"

definition preview_html :: "string list \<Rightarrow> string" where
  "preview_html texts =
     ''<div>'' @ concat (map (\<lambda>t. ''<p>'' @ t @ ''</p>'') (preview_filter texts)) @ ''</div>''"

text \<open>The three HTML previews differ in the default file and in the message of the 404.\<close>

definition html_preview :: "string \<Rightarrow> filesys \<Rightarrow> string \<Rightarrow> reply" where
  "html_preview missing fs docxPath =
     (if \<not> existsSync fs docxPath then JsonError 404 missing
      else case readDocumentXml fs docxPath of
        None \<Rightarrow> JsonError 500 ''Failed to parse docx''
      | Some xml \<Rightarrow> HtmlReply (preview_html (text_runs xml)))"

definition summary_preview :: "server_env \<Rightarrow> filesys \<Rightarrow> qval option \<Rightarrow> reply" where
  "summary_preview env fs v =
     html_preview ''No summary'' fs (docx_path env ''summaries.docx'' v)"

definition flashcards_preview :: "server_env \<Rightarrow> filesys \<Rightarrow> qval option \<Rightarrow> reply" where
  "flashcards_preview env fs v =
     html_preview ''No flashcards'' fs (docx_path env ''flashcards.docx'' v)"

definition formulas_preview :: "server_env \<Rightarrow> filesys \<Rightarrow> qval option \<Rightarrow> reply" where
  "formulas_preview env fs v =
     html_preview ''No formula sheet'' fs (docx_path env ''formula_sheet.docx'' v)"

subsection \<open>GET /api/flashcards-json\<close>

text \<open>
  \<^verbatim>\<open>/^\s*(?:Q\s*[:\-]\s*|Question\s*[:\-]\s*)(.+)$/i\<close> and
  \<^verbatim>\<open>/^\s*(?:A\s*[:\-]\s*|Answer\s*[:\-]\s*)(.+)$/i\<close>
\<close>

definition colon_or_dash :: rx where
  "colon_or_dash = Atom (\<lambda>c. c = CHR '':'' \<or> c = CHR ''-'')"

definition labelled :: "string \<Rightarrow> string \<Rightarrow> rx" where
  "labelled short long =
     Seq (Star ws)
       (Seq (Alt (Seq (liti short) (Seq (Star ws) (Seq colon_or_dash (Star ws))))
                 (Seq (liti long) (Seq (Star ws) (Seq colon_or_dash (Star ws)))))
         (Seq (Group (Plus (Atom is_dot))) Eol))"

definition qMatch :: "string \<Rightarrow> string option" where
  "qMatch line = match_at (labelled ''Q'' ''Question'') line"

definition aMatch :: "string \<Rightarrow> string option" where
  "aMatch line = match_at (labelled ''A'' ''Answer'') line"

text \<open>\<^verbatim>\<open>texts.map(t => t.trim()).filter(t => t && !pathLike.test(t))\<close>\<close>

definition flashcard_lines :: "string list \<Rightarrow> string list" where
  "flashcard_lines texts = filter (\<lambda>t. t \<noteq> [] \<and> \<not> test_from pathLike t) (map trim texts)"

text \<open>
  One round of the loop over the lines. \<open>currentQ\<close> is \<open>None\<close> for \<^verbatim>\<open>null\<close>; the
  test \<^verbatim>\<open>if (currentQ)\<close> holds for a string that is not empty.
\<close>

fun pair_step :: "card list \<times> string option \<Rightarrow> string \<Rightarrow> card list \<times> string option" where
  "pair_step (cards, currentQ) line =
     (case qMatch line of
        Some m \<Rightarrow>
          ((case currentQ of
              Some cq \<Rightarrow> if cq \<noteq> [] then cards @ [Card cq []] else cards
            | None \<Rightarrow> cards),
           Some (trim m))
      | None \<Rightarrow>
         (case aMatch line of
            Some m \<Rightarrow>
              (case currentQ of
                 Some cq \<Rightarrow> if cq \<noteq> [] then (cards @ [Card cq (trim m)], None)
                            else (cards, currentQ)
               | None \<Rightarrow> (cards, currentQ))
          | None \<Rightarrow>
              (case currentQ of
                 None \<Rightarrow> (cards, Some line)
               | Some cq \<Rightarrow> (cards @ [Card cq line], None))))"

definition pair_finish :: "card list \<times> string option \<Rightarrow> card list" where
  "pair_finish st =
     (case st of
        (cards, Some cq) \<Rightarrow> if cq \<noteq> [] then cards @ [Card cq []] else cards
      | (cards, None) \<Rightarrow> cards)"

definition pair_cards :: "string list \<Rightarrow> card list" where
  "pair_cards lines = pair_finish (foldl pair_step ([], None) lines)"

text \<open>\<^verbatim>\<open>/^(?:flashcards?|summary|contents?|study)/i\<close>\<close>

definition header_word :: rx where
  "header_word =
     Alt (Seq (liti ''flashcard'') (Opt (ci CHR ''s'')))
       (Alt (liti ''summary'')
         (Alt (Seq (liti ''content'') (Opt (ci CHR ''s''))) (liti ''study'')))"

definition looksHeader :: "card \<Rightarrow> bool" where
  "looksHeader first \<longleftrightarrow>
     (answer first = [] \<or> length (trim (answer first)) = 0)
     \<or> (question first \<noteq> [] \<and> length (split_rx (Plus ws) (question first)) < 3)
     \<or> test_at header_word (question first)"

definition drop_header :: "card list \<Rightarrow> card list" where
  "drop_header cards =
     (case cards of [] \<Rightarrow> [] | first # rest \<Rightarrow> if looksHeader first then rest else cards)"

text \<open>
  \<^verbatim>\<open>/^\s*(?:Q|Question)\s*\d*\s*[:.)-]?\s*/i\<close>, the same with \<^verbatim>\<open>A|Answer\<close>, and
  \<^verbatim>\<open>/^\s*[\<bullet>\-]\s*/\<close>, whose bullet (U+2022) is no code unit below 256.
\<close>

definition label_rx :: "string \<Rightarrow> string \<Rightarrow> rx" where
  "label_rx short long =
     Seq (Star ws)
       (Seq (Alt (liti short) (liti long))
         (Seq (Star ws)
           (Seq (Star (Atom is_digit))
             (Seq (Star ws)
               (Seq (Opt (Atom (\<lambda>c. c = CHR '':'' \<or> c = CHR ''.'' \<or> c = CHR '')'' \<or> c = CHR ''-'')))
                 (Star ws))))))"

definition bullet_rx :: rx where
  "bullet_rx = Seq (Star ws) (Seq (ch CHR ''-'') (Star ws))"

definition stripLabel :: "string \<Rightarrow> string" where
  "stripLabel s =
     (if s = [] then s
      else trim (replace_at bullet_rx
                  (replace_at (label_rx ''A'' ''Answer'')
                    (replace_at (label_rx ''Q'' ''Question'') s))))"

definition flashcards :: "string list \<Rightarrow> card list" where
  "flashcards texts =
     map (\<lambda>c. Card (stripLabel (question c)) (stripLabel (answer c)))
       (drop_header (pair_cards (flashcard_lines texts)))"

definition cards_reply :: "filesys \<Rightarrow> string \<Rightarrow> reply" where
  "cards_reply fs docxPath =
     (if \<not> existsSync fs docxPath then JsonError 404 ''No flashcards''
      else case readDocumentXml fs docxPath of
        None \<Rightarrow> JsonError 500 ''Failed to parse flashcards''
      | Some xml \<Rightarrow> CardsReply (flashcards (text_runs xml)))"

definition flashcards_json :: "server_env \<Rightarrow> filesys \<Rightarrow> qval option \<Rightarrow> reply" where
  "flashcards_json env fs v = cards_reply fs (docx_path env ''flashcards.docx'' v)"

section \<open>Notions used to state the properties of the previews\<close>

subsection \<open>Declarative reading of the patterns\<close>

text \<open>
  \<open>rems r s\<close> is the set of inputs that can remain after \<open>r\<close> has matched a prefix of
  \<open>s\<close>, without the order of the attempts and without the capture.
\<close>

definition shrink :: "(string \<Rightarrow> string set) \<Rightarrow> (string \<times> string) set" where
  "shrink f = {(u, v). v \<in> f u \<and> length v < length u}"

fun rems :: "rx \<Rightarrow> string \<Rightarrow> string set" where
  "rems (Atom p) s = {xs. \<exists>x. s = x # xs \<and> p x}"
| "rems Eps s = {s}"
| "rems (Seq a b) s = (\<Union>m \<in> rems a s. rems b m)"
| "rems (Alt a b) s = rems a s \<union> rems b s"
| "rems (Star a) s = {s'. (s, s') \<in> (shrink (rems a))\<^sup>*}"
| "rems (Lazy a) s = {s'. (s, s') \<in> (shrink (rems a))\<^sup>*}"
| "rems (Group a) s = rems a s"
| "rems Eol s = (if s = [] then {[]} else {})"

text \<open>The names of the pattern \<^verbatim>\<open>^[A-Za-z0-9_.-]+\.docx$\<close>.\<close>

definition safe_name :: "string \<Rightarrow> bool" where
  "safe_name name \<longleftrightarrow>
     (\<exists>stem. stem \<noteq> [] \<and> (\<forall>c \<in> set stem. safe_char c) \<and> name = stem @ ''.docx'')"

text \<open>
  A path token: a drive prefix, a UNC prefix or a slash, then one or more code units
  that are not white space, then a dot and one of the input extensions in any case.
\<close>

definition path_root :: "string \<Rightarrow> bool" where
  "path_root r \<longleftrightarrow>
     (\<exists>l. ascii_letter l \<and> r = [l, CHR '':'', CHR 0x5C])
     \<or> r = [CHR 0x5C, CHR 0x5C] \<or> r = ''/''"

definition input_ext :: "string \<Rightarrow> bool" where
  "input_ext e \<longleftrightarrow>
     map ascii_fold e = map ascii_fold ''pdf'' \<or> map ascii_fold e = map ascii_fold ''txt''
     \<or> map ascii_fold e = map ascii_fold ''docx''"

definition path_token :: "string \<Rightarrow> bool" where
  "path_token tok \<longleftrightarrow>
     (\<exists>root body ext. tok = root @ body @ ''.'' @ ext \<and> path_root root \<and> body \<noteq> []
        \<and> (\<forall>c \<in> set body. \<not> is_space c) \<and> input_ext ext)"

text \<open>A run that ends in a path token, and a run that is one from its first code unit.\<close>

definition ends_in_path_token :: "string \<Rightarrow> bool" where
  "ends_in_path_token t \<longleftrightarrow> (\<exists>pre tok. t = pre @ tok \<and> path_token tok)"

definition entire_path :: "string \<Rightarrow> bool" where
  "entire_path t \<longleftrightarrow> test_at pathLike t"

subsection \<open>The file chosen by a preview\<close>

definition chosen_file :: "string \<Rightarrow> qval option \<Rightarrow> string" where
  "chosen_file dflt v =
     (if file_param v = [] \<or> \<not> ends_with ''.docx'' (file_param v) then dflt
      else file_param v)"

subsection \<open>The pairing rules\<close>

text \<open>
  The kind of a run: a question with its text, an answer with its text, or a plain run.
  \<open>classify\<close> reads the kind with the patterns of the handler.
\<close>

datatype run_kind = QRun string | ARun string | PlainRun

definition classify :: "string \<Rightarrow> run_kind" where
  "classify line =
     (case qMatch line of
        Some m \<Rightarrow> QRun (trim m)
      | None \<Rightarrow> (case aMatch line of Some m \<Rightarrow> ARun (trim m) | None \<Rightarrow> PlainRun))"

text \<open>
  \<open>literal_classify\<close> reads the kind as the words of the specification say: a run has a
  prefix \<^verbatim>\<open>Q:\<close> or \<^verbatim>\<open>Question:\<close> (\<^verbatim>\<open>A:\<close> or \<^verbatim>\<open>Answer:\<close>), in any case, and its text is
  what follows the prefix.
\<close>

definition has_prefix_ci :: "string \<Rightarrow> string \<Rightarrow> bool" where
  "has_prefix_ci p s \<longleftrightarrow>
     length p \<le> length s \<and> map ascii_fold (take (length p) s) = map ascii_fold p"

definition literal_classify :: "string \<Rightarrow> run_kind" where
  "literal_classify line =
     (if has_prefix_ci ''Q:'' line then QRun (trim (drop 2 line))
      else if has_prefix_ci ''Question:'' line then QRun (trim (drop 9 line))
      else if has_prefix_ci ''A:'' line then ARun (trim (drop 2 line))
      else if has_prefix_ci ''Answer:'' line then ARun (trim (drop 7 line))
      else PlainRun)"

text \<open>
  The rules of the specification, for a reading \<open>kind\<close> of the runs: a question run
  emits the pending question with an empty answer and becomes the pending question; an
  answer run completes the pending question and is ignored without one; a plain run
  becomes the pending question or, with one pending, its answer; a question pending at
  the end is emitted with an empty answer.
\<close>

fun spec_pairing :: "(string \<Rightarrow> run_kind) \<Rightarrow> string option \<Rightarrow> string list \<Rightarrow> card list" where
  "spec_pairing kind pending [] =
     (case pending of None \<Rightarrow> [] | Some p \<Rightarrow> [Card p []])"
| "spec_pairing kind pending (run # runs) =
     (case kind run of
        QRun t \<Rightarrow>
          (case pending of None \<Rightarrow> [] | Some p \<Rightarrow> [Card p []]) @ spec_pairing kind (Some t) runs
      | ARun t \<Rightarrow>
          (case pending of
             None \<Rightarrow> spec_pairing kind None runs
           | Some p \<Rightarrow> Card p t # spec_pairing kind None runs)
      | PlainRun \<Rightarrow>
          (case pending of
             None \<Rightarrow> spec_pairing kind (Some run) runs
           | Some p \<Rightarrow> Card p run # spec_pairing kind None runs))"

text \<open>A line as the filter of the handler leaves it: not empty, no white space at its end.\<close>

definition settled_line :: "string \<Rightarrow> bool" where
  "settled_line l \<longleftrightarrow> l \<noteq> [] \<and> \<not> is_space (last l)"

subsection \<open>Concrete inputs\<close>

definition windows_path :: string where
  "windows_path = ''C:'' @ [CHR 0x5C] @ ''notes'' @ [CHR 0x5C] @ ''chapter1.pdf''"

definition inertia_runs :: "string list" where
  "inertia_runs =
     [''Q: What is inertia?'', ''A: Resistance to change in motion'', ''Random fact'']"

definition cards_disk :: filesys where
  "cards_disk =
     \<lparr>existsSync = (\<lambda>p. p \<in> set [''/srv/app/outputs/flashcards.docx'',
                                  ''/srv/app/outputs/../inputs/notes.docx'']),
      readdirSync = (\<lambda>p. None),
      readDocumentXml = (\<lambda>p.
        if p = ''/srv/app/outputs/flashcards.docx''
        then Some (''<w:p><w:r><w:t>Q: What is inertia?</w:t></w:r></w:p>''
                   @ ''<w:p><w:r><w:t xml:space=\"preserve\">A: Resistance to change in motion</w:t></w:r></w:p>''
                   @ ''<w:p><w:r><w:t>Random fact</w:t></w:r></w:p>'')
        else if p = ''/srv/app/outputs/../inputs/notes.docx''
        then Some ''<w:p><w:r><w:t>private notes</w:t></w:r></w:p>''
        else None)\<rparr>"

section \<open>Properties of the job runner\<close>

subsection \<open>Evaluation of the concrete runs\<close>

lemmas run_model_defs =
  api_run_def run_start_def make_request_def candidates_def INPUTS_DIR_def OUTPUTS_DIR_def
  fresh_def tryNext_def on_data_def on_error_def on_close_def info_line_def spawn_args_def
  ends_with_def toLowerCase_def lower_char_def char_of_def bit_Suc_0_iff Let_def

lemma plain_candidates: "candidates plain_env notes_disk = [''python'', ''python3'']"
  by (simp add: candidates_def plain_env_def notes_disk_def)

lemma plain_run_zero:
  "api_run plain_env notes_disk None []
   = \<lparr>children =
        [\<lparr>idx = 0, exe = ''python'',
          child_logs = ''[INFO] Trying Python: python -m src.agent.cli /srv/app/inputs --out /srv/app/outputs'' @ [CHR 0x0A],
          started = False\<rparr>],
      responded = False, sent = [], history = [], crashed = False, disk = notes_disk\<rparr>"
  by (simp add: run_model_defs plain_env_def notes_disk_def)

lemma plain_run_started:
  "api_run plain_env notes_disk None [Stdout 0 ''working '', Stderr 0 ''Traceback'']
   = \<lparr>children =
        [\<lparr>idx = 0, exe = ''python'',
          child_logs = ''[INFO] Trying Python: python -m src.agent.cli /srv/app/inputs --out /srv/app/outputs'' @ [CHR 0x0A] @ ''working Traceback'',
          started = True\<rparr>],
      responded = False, sent = [], history = [], crashed = False, disk = notes_disk\<rparr>"
  by (simp add: run_model_defs plain_env_def notes_disk_def)



lemma trim_demo: "trim '' /opt/py/bin/python3.11 '' = ''/opt/py/bin/python3.11''"
  by (simp add: trim_def is_space_def)

subsection \<open>Basic facts\<close>

lemma run_events_append:
  "run_events rq (es1 @ es2) s = run_events rq es2 (run_events rq es1 s)"
  by (induction es1 arbitrary: s) simp_all

lemma api_run_append:
  "api_run env d u (es1 @ es2) = run_events (make_request env d u) es2 (api_run env d u es1)"
  by (simp add: api_run_def run_events_append)

lemma step_no_children:
  "children s = [] \<Longrightarrow> children (step rq e s) = [] \<and> sent (step rq e s) = sent s"
  by (cases e) simp_all

lemma run_events_no_children:
  "children s = [] \<Longrightarrow>
     children (run_events rq es s) = [] \<and> sent (run_events rq es s) = sent s"
proof (induction es arbitrary: s)
  case Nil
  then show ?case by simp
next
  case (Cons e es)
  from Cons.prems have "children (step rq e s) = []" and "sent (step rq e s) = sent s"
    using step_no_children by blast+
  with Cons.IH [of "step rq e s"] show ?case by simp
qed

lemma tryNext_sent:
  "sent (tryNext rq i s) =
     (if i \<ge> length (cands rq) \<and> \<not> responded s
      then sent s @ [Response 500 (ErrorBody
        ''Python not found. Set PYTHON_EXEC in .env or ensure python is on PATH.'')]
      else sent s)"
  by (simp add: tryNext_def Let_def)

lemma tryNext_responded:
  "responded (tryNext rq i s) \<longleftrightarrow> responded s \<or> i \<ge> length (cands rq)"
  by (simp add: tryNext_def Let_def)

lemma tryNext_children:
  "children (tryNext rq i s) =
     (if i \<ge> length (cands rq) then children s
      else children s @ [\<lparr>idx = i, exe = cands rq ! i,
                           child_logs = info_line rq (cands rq ! i), started = False\<rparr>])"
  by (simp add: tryNext_def Let_def)

lemma tryNext_other:
  "crashed (tryNext rq i s) = crashed s" "disk (tryNext rq i s) = disk s"
  by (simp_all add: tryNext_def Let_def)

lemma candidates_at_least_two: "2 \<le> length (candidates env d)"
  by (simp add: candidates_def Let_def split: option.splits)

subsection \<open>Invariants of a request\<close>

lemma step_responded_sent:
  "responded s \<Longrightarrow> sent (step rq e s) = sent s \<and> responded (step rq e s)"
  by (cases e)
     (simp_all add: on_data_def on_error_def on_close_def Let_def tryNext_sent tryNext_responded)

lemma step_sent_mono:
  "\<not> responded s \<Longrightarrow> sent s = [] \<Longrightarrow>
     length (sent (step rq e s)) \<le> 1 \<and> (sent (step rq e s) \<noteq> [] \<longrightarrow> responded (step rq e s))"
  by (cases e)
     (auto simp: on_data_def on_error_def on_close_def Let_def tryNext_sent tryNext_responded
           split: option.splits)

lemma step_settled_once:
  assumes "settled_once s"
  shows "settled_once (step rq e s)"
proof (cases "children s = []")
  case True
  with assms step_no_children [of s rq e] show ?thesis
    by (simp add: settled_once_def)
next
  case nonempty: False
  show ?thesis
  proof (cases "responded s")
    case True
    with assms step_responded_sent [of s rq e] show ?thesis
      by (simp add: settled_once_def)
  next
    case False
    with assms nonempty have "sent s = []" by (auto simp: settled_once_def)
    with False step_sent_mono [of s rq e] show ?thesis
      by (auto simp: settled_once_def)
  qed
qed

lemma run_events_settled_once:
  "settled_once s \<Longrightarrow> settled_once (run_events rq es s)"
  by (induction es arbitrary: s) (simp_all add: step_settled_once)

lemma run_start_settled_once: "settled_once (run_start env d u)"
  by (auto simp: run_start_def settled_once_def fresh_def tryNext_sent tryNext_responded
           tryNext_children split: option.splits)

lemma api_run_settled_once: "settled_once (api_run env d u es)"
  by (simp add: api_run_def run_events_settled_once run_start_settled_once)

lemma step_frozen:
  "sent s \<noteq> [] \<Longrightarrow> settled_once s \<Longrightarrow> sent (step rq e s) = sent s"
  using step_no_children [of s rq e] step_responded_sent [of s rq e]
  by (auto simp: settled_once_def)

lemma run_events_frozen:
  "sent s \<noteq> [] \<Longrightarrow> settled_once s \<Longrightarrow> sent (run_events rq es s) = sent s"
proof (induction es arbitrary: s)
  case Nil
  then show ?case by simp
next
  case (Cons e es)
  from Cons.prems have eq: "sent (step rq e s) = sent s" by (rule step_frozen)
  with Cons.prems have "sent (step rq e s) \<noteq> []" by simp
  moreover from Cons.prems have "settled_once (step rq e s)" by (simp add: step_settled_once)
  ultimately show ?case using Cons.IH [of "step rq e s"] eq by simp
qed




lemma step_alive: "alive s \<Longrightarrow> alive (step rq e s)"
  by (cases e)
     (auto simp: alive_def on_data_def on_error_def on_close_def Let_def tryNext_children
        tryNext_responded tryNext_other split: option.splits)

lemma run_events_alive: "alive s \<Longrightarrow> alive (run_events rq es s)"
  by (induction es arbitrary: s) (simp_all add: step_alive)

lemma api_run_alive: "alive (api_run env d u es)"
  unfolding api_run_def
  by (rule run_events_alive)
     (auto simp: run_start_def alive_def fresh_def tryNext_children tryNext_other
        split: option.splits)

lemma on_close_sends:
  assumes "\<not> responded s" and "sent s = []"
    and "readdirSync (disk s) (outDir rq) = Some names"
  shows "sent (on_close rq k cd s) =
     [Response 200 (ReportBody
        \<lparr>ok = (cd = Some 0), code = cd, logs = child_logs (children s ! k),
         files = filter (\<lambda>n. ends_with ''.docx'' (toLowerCase n)) names,
         legacy_summaries = existsSync (disk s) (join_path rq [outDir rq, ''summaries.docx'']),
         legacy_flashcards = existsSync (disk s) (join_path rq [outDir rq, ''flashcards.docx'']),
         legacy_formula_sheet =
           existsSync (disk s) (join_path rq [outDir rq, ''formula_sheet.docx'']),
         outputs_summary = ''/api/download/summaries.docx'',
         outputs_flashcards = ''/api/download/flashcards.docx'',
         outputs_formulas = ''/api/download/formula_sheet.docx'',
         outputs_preview = ''/api/summary-preview''\<rparr>)]"
  using assms by (simp add: on_close_def Let_def split: option.splits)

lemma step_started_stays:
  assumes "k < length (children s)" and "started (children s ! k)"
    and "\<not> foreign_error k e"
  shows "map idx (children (step rq e s)) = map idx (children s)
         \<and> k < length (children (step rq e s)) \<and> started (children (step rq e s) ! k)"
proof (cases e)
  case (Stdout j d)
  with assms show ?thesis
    by (auto simp: on_data_def Let_def map_update nth_list_update list_update_same_conv)
next
  case (Stderr j d)
  with assms show ?thesis
    by (auto simp: on_data_def Let_def map_update nth_list_update list_update_same_conv)
next
  case (ChildError j)
  with assms have "j = k" by (simp add: foreign_error_def)
  with ChildError assms show ?thesis by (simp add: on_error_def Let_def)
next
  case (ChildClose j cd)
  with assms show ?thesis by (simp add: on_close_def Let_def split: option.splits)
next
  case (DiskChange d)
  with assms show ?thesis by simp
qed

lemma run_events_started_stays:
  assumes "k < length (children s)" and "started (children s ! k)"
    and "\<forall>e \<in> set es. \<not> foreign_error k e"
  shows "map idx (children (run_events rq es s)) = map idx (children s)"
  using assms
proof (induction es arbitrary: s)
  case Nil
  then show ?case by simp
next
  case (Cons e es)
  from Cons.prems have "\<not> foreign_error k e" by simp
  from step_started_stays [OF Cons.prems(1,2) this, of rq]
  have a: "map idx (children (step rq e s)) = map idx (children s)"
    and b: "k < length (children (step rq e s))"
    and c: "started (children (step rq e s) ! k)" by simp_all
  from Cons.prems have "\<forall>e \<in> set es. \<not> foreign_error k e" by simp
  from Cons.IH [OF b c this] a show ?case by simp
qed

lemma on_data_effect:
  assumes "k < length (children s)"
  shows "child_logs (children (on_data k x s) ! k) = child_logs (children s ! k) @ x"
    and "length (children (on_data k x s)) = length (children s)"
    and "responded (on_data k x s) = responded s"
    and "sent (on_data k x s) = sent s"
    and "crashed (on_data k x s) = crashed s"
    and "disk (on_data k x s) = disk s"
  using assms by (simp_all add: on_data_def Let_def)

lemma data_events_effect:
  assumes "k < length (children s)" and "\<not> crashed s"
  shows "child_logs (children (run_events rq (data_events k ds) s) ! k)
           = child_logs (children s ! k) @ concat (map snd ds)
         \<and> length (children (run_events rq (data_events k ds) s)) = length (children s)
         \<and> responded (run_events rq (data_events k ds) s) = responded s
         \<and> sent (run_events rq (data_events k ds) s) = sent s
         \<and> crashed (run_events rq (data_events k ds) s) = crashed s
         \<and> disk (run_events rq (data_events k ds) s) = disk s"
  using assms
proof (induction ds arbitrary: s)
  case Nil
  then show ?case by (simp add: data_events_def)
next
  case (Cons p ds)
  obtain is_err x where p: "p = (is_err, x)" by (cases p)
  let ?e = "if is_err then Stderr k x else Stdout k x"
  from Cons.prems have st: "step rq ?e s = on_data k x s" by simp
  have ev: "data_events k (p # ds) = ?e # data_events k ds"
    by (simp add: data_events_def p)
  from Cons.prems on_data_effect [of k s x]
  have pre: "k < length (children (on_data k x s))" "\<not> crashed (on_data k x s)" by simp_all
  from Cons.IH [OF pre] on_data_effect [OF Cons.prems(1), of x] show ?case
    unfolding ev by (simp add: st p del: step.simps)
qed

subsection \<open>Candidate selection\<close>

text \<open>
  C1. Let child \<open>k\<close> of a request exist after the events \<open>es\<close>, in a live process.
  If it has produced no output, its error event is a call of \<^verbatim>\<open>tryNext\<close> with the next
  index: when that index is inside the candidate list a child for the next candidate is
  spawned and nothing is sent. If it has produced output, then no further candidate is
  attempted by any later events other than error events of other children, and its close
  event with a code other than 0, arriving before any response, settles the request with
  a report that has \<open>ok = False\<close> and that code, whatever events follow.
\<close>

theorem candidate_selection:
  assumes "k < length (children (api_run env d u es))"
    and "\<not> crashed (api_run env d u es)"
  shows
    "(\<not> started (children (api_run env d u es) ! k) \<longrightarrow>
        api_run env d u (es @ [ChildError k])
          = tryNext (make_request env d u) (idx (children (api_run env d u es) ! k) + 1)
              (api_run env d u es)
        \<and> (idx (children (api_run env d u es) ! k) + 1 < length (candidates env d) \<longrightarrow>
             children (api_run env d u (es @ [ChildError k]))
               = children (api_run env d u es) @
                 [\<lparr>idx = idx (children (api_run env d u es) ! k) + 1,
                   exe = candidates env d ! (idx (children (api_run env d u es) ! k) + 1),
                   child_logs = info_line (make_request env d u)
                     (candidates env d ! (idx (children (api_run env d u es) ! k) + 1)),
                   started = False\<rparr>]
             \<and> sent (api_run env d u (es @ [ChildError k])) = sent (api_run env d u es)))
     \<and> (started (children (api_run env d u es) ! k) \<longrightarrow>
          (\<forall>e \<in> set es'. \<not> foreign_error k e) \<longrightarrow>
          map idx (children (api_run env d u (es @ es')))
            = map idx (children (api_run env d u es))
          \<and> (\<not> responded (api_run env d u es) \<and> cd \<noteq> Some 0
              \<and> readdirSync (disk (api_run env d u es)) (OUTPUTS_DIR env) \<noteq> None \<longrightarrow>
              (\<exists>r. sent (api_run env d u (es @ ChildClose k cd # es'))
                     = [Response 200 (ReportBody r)] \<and> \<not> ok r \<and> code r = cd)))"
proof (intro conjI impI)
  let ?s = "api_run env d u es"
  let ?rq = "make_request env d u"
  assume ns: "\<not> started (children ?s ! k)"
  with assms show adv: "api_run env d u (es @ [ChildError k])
                   = tryNext ?rq (idx (children ?s ! k) + 1) ?s"
    by (simp add: api_run_append on_error_def Let_def)
  assume "idx (children ?s ! k) + 1 < length (candidates env d)"
  then have lt: "\<not> length (cands ?rq) \<le> idx (children ?s ! k) + 1"
    by (simp add: make_request_def)
  show "children (api_run env d u (es @ [ChildError k]))
               = children ?s @
                 [\<lparr>idx = idx (children ?s ! k) + 1,
                   exe = candidates env d ! (idx (children ?s ! k) + 1),
                   child_logs = info_line ?rq (candidates env d ! (idx (children ?s ! k) + 1)),
                   started = False\<rparr>]"
    unfolding adv tryNext_children using lt by (simp add: make_request_def)
  show "sent (api_run env d u (es @ [ChildError k])) = sent ?s"
    unfolding adv tryNext_sent using lt by simp
next
  let ?s = "api_run env d u es"
  let ?rq = "make_request env d u"
  assume st: "started (children ?s ! k)" and quiet: "\<forall>e \<in> set es'. \<not> foreign_error k e"
  from run_events_started_stays [OF assms(1) st quiet, of ?rq]
  show "map idx (children (api_run env d u (es @ es'))) = map idx (children ?s)"
    by (simp add: api_run_append)
  assume h: "\<not> responded ?s \<and> cd \<noteq> Some 0
             \<and> readdirSync (disk ?s) (OUTPUTS_DIR env) \<noteq> None"
  then obtain names where names: "readdirSync (disk ?s) (outDir ?rq) = Some names"
    by (auto simp: make_request_def)
  from h assms(1) api_run_settled_once [of env d u es] have empty: "sent ?s = []"
    by (auto simp: settled_once_def)
  let ?t = "step ?rq (ChildClose k cd) ?s"
  from h have nr: "\<not> responded ?s" by simp
  have t_eq: "?t = on_close ?rq k cd ?s" using assms by simp
  from on_close_sends [OF nr empty names, of k cd] h t_eq
  obtain r where r: "sent ?t = [Response 200 (ReportBody r)]" "\<not> ok r" "code r = cd"
    by auto
  have "settled_once ?t"
    using api_run_settled_once [of env d u es] by (rule step_settled_once)
  with r(1) have "sent (run_events ?rq es' ?t) = sent ?t"
    by (simp add: run_events_frozen)
  with r show "\<exists>r. sent (api_run env d u (es @ ChildClose k cd # es'))
                     = [Response 200 (ReportBody r)] \<and> \<not> ok r \<and> code r = cd"
    by (auto simp: api_run_append)
qed

theorem candidate_selection_witness:
  "map idx (children (api_run plain_env notes_disk None ([] @ [ChildError 0]))) = [0, 1]
   \<and> map idx (children (api_run plain_env notes_disk None
          ([Stdout 0 ''working '', Stderr 0 ''Traceback''] @ [Stderr 0 ''more'', ChildError 0])))
       = [0]
   \<and> (\<exists>r. sent (api_run plain_env notes_disk None
          ([Stdout 0 ''working '', Stderr 0 ''Traceback'']
             @ ChildClose 0 (Some 2) # [Stderr 0 ''more'', ChildError 0]))
            = [Response 200 (ReportBody r)] \<and> \<not> ok r \<and> code r = Some 2)"
proof -
  let ?s0 = "api_run plain_env notes_disk None []"
  let ?s2 = "api_run plain_env notes_disk None [Stdout 0 ''working '', Stderr 0 ''Traceback'']"
  have a0: "0 < length (children ?s0)" and b0: "\<not> crashed ?s0"
    and c0: "\<not> started (children ?s0 ! 0)"
    and d0: "idx (children ?s0 ! 0) + 1 < length (candidates plain_env notes_disk)"
    unfolding plain_run_zero plain_candidates by simp_all
  have a2: "0 < length (children ?s2)" and b2: "\<not> crashed ?s2"
    and c2: "started (children ?s2 ! 0)" and d2: "\<not> responded ?s2"
    and e2: "readdirSync (disk ?s2) (OUTPUTS_DIR plain_env) \<noteq> None"
    unfolding plain_run_started
    by (simp_all add: notes_disk_def OUTPUTS_DIR_def plain_env_def)
  have f2: "\<forall>e \<in> set [Stderr 0 ''more'', ChildError 0]. \<not> foreign_error 0 e"
    by (simp add: foreign_error_def)
  have g2: "Some (2::int) \<noteq> Some 0" by simp
  from candidate_selection [OF a0 b0] c0 d0
  have "children (api_run plain_env notes_disk None ([] @ [ChildError 0]))
          = children ?s0 @
             [\<lparr>idx = idx (children ?s0 ! 0) + 1,
               exe = candidates plain_env notes_disk ! (idx (children ?s0 ! 0) + 1),
               child_logs = info_line (make_request plain_env notes_disk None)
                 (candidates plain_env notes_disk ! (idx (children ?s0 ! 0) + 1)),
               started = False\<rparr>]"
    by blast
  then have first: "map idx (children (api_run plain_env notes_disk None ([] @ [ChildError 0])))
                      = [0, 1]"
    unfolding plain_run_zero by simp
  from candidate_selection [OF a2 b2, of "[Stderr 0 ''more'', ChildError 0]" "Some 2"]
    c2 d2 e2 f2 g2
  have "map idx (children (api_run plain_env notes_disk None
          ([Stdout 0 ''working '', Stderr 0 ''Traceback''] @ [Stderr 0 ''more'', ChildError 0])))
        = map idx (children ?s2)"
    and third: "\<exists>r. sent (api_run plain_env notes_disk None
          ([Stdout 0 ''working '', Stderr 0 ''Traceback'']
             @ ChildClose 0 (Some 2) # [Stderr 0 ''more'', ChildError 0]))
            = [Response 200 (ReportBody r)] \<and> \<not> ok r \<and> code r = Some 2"
    by blast+
  then have second: "map idx (children (api_run plain_env notes_disk None
          ([Stdout 0 ''working '', Stderr 0 ''Traceback''] @ [Stderr 0 ''more'', ChildError 0])))
        = [0]"
    unfolding plain_run_started by simp
  from first second third show ?thesis by blast
qed

subsection \<open>One response\<close>



subsection \<open>The report of a failed job\<close>

lemma close_reports_failure:
  assumes "k < length (children (api_run env d u es))"
    and "\<not> responded (api_run env d u es)"
    and "c \<noteq> 0"
    and "readdirSync (disk (api_run env d u es)) (OUTPUTS_DIR env) = Some names"
  shows "sent (api_run env d u (es @ [ChildClose k (Some c)])) =
     [Response 200 (ReportBody
        \<lparr>ok = False, code = Some c,
         logs = child_logs (children (api_run env d u es) ! k),
         files = filter (\<lambda>n. ends_with ''.docx'' (toLowerCase n)) names,
         legacy_summaries = existsSync (disk (api_run env d u es))
           (path_join env [OUTPUTS_DIR env, ''summaries.docx'']),
         legacy_flashcards = existsSync (disk (api_run env d u es))
           (path_join env [OUTPUTS_DIR env, ''flashcards.docx'']),
         legacy_formula_sheet = existsSync (disk (api_run env d u es))
           (path_join env [OUTPUTS_DIR env, ''formula_sheet.docx'']),
         outputs_summary = ''/api/download/summaries.docx'',
         outputs_flashcards = ''/api/download/flashcards.docx'',
         outputs_formulas = ''/api/download/formula_sheet.docx'',
         outputs_preview = ''/api/summary-preview''\<rparr>)]"
proof -
  let ?s = "api_run env d u es"
  let ?rq = "make_request env d u"
  from assms(1,2) api_run_alive [of env d u es] have live: "\<not> crashed ?s"
    by (auto simp: alive_def)
  from assms(1,2) api_run_settled_once [of env d u es] have empty: "sent ?s = []"
    by (auto simp: settled_once_def)
  from assms(4) have names: "readdirSync (disk ?s) (outDir ?rq) = Some names"
    by (simp add: make_request_def)
  have "sent (api_run env d u (es @ [ChildClose k (Some c)]))
        = sent (on_close ?rq k (Some c) ?s)"
    using assms(1) live by (simp add: api_run_append)
  also note on_close_sends [OF assms(2) empty names, of k "Some c"]
  finally show ?thesis using assms(3) by (simp add: make_request_def)
qed

lemma first_attempt_report:
  assumes "existsSync d (INPUTS_DIR env)"
    and "readdirSync d (INPUTS_DIR env) = Some entries" and "entries \<noteq> []"
    and "readdirSync d' (OUTPUTS_DIR env) = Some names"
  shows "sent (api_run env d u (data_events 0 ds @ [DiskChange d', ChildClose 0 cd])) =
     [Response 200 (ReportBody
        \<lparr>ok = (cd = Some 0), code = cd,
         logs = info_line (make_request env d u) (candidates env d ! 0) @ concat (map snd ds),
         files = filter (\<lambda>n. ends_with ''.docx'' (toLowerCase n)) names,
         legacy_summaries = existsSync d' (path_join env [OUTPUTS_DIR env, ''summaries.docx'']),
         legacy_flashcards = existsSync d' (path_join env [OUTPUTS_DIR env, ''flashcards.docx'']),
         legacy_formula_sheet =
           existsSync d' (path_join env [OUTPUTS_DIR env, ''formula_sheet.docx'']),
         outputs_summary = ''/api/download/summaries.docx'',
         outputs_flashcards = ''/api/download/flashcards.docx'',
         outputs_formulas = ''/api/download/formula_sheet.docx'',
         outputs_preview = ''/api/summary-preview''\<rparr>)]"
proof -
  let ?rq = "make_request env d u"
  let ?c0 = "\<lparr>idx = 0, exe = candidates env d ! 0,
              child_logs = info_line ?rq (candidates env d ! 0), started = False\<rparr>"
  let ?s1 = "(fresh d)\<lparr>children := [?c0]\<rparr>"
  have two: "2 \<le> length (cands ?rq)"
    using candidates_at_least_two [of env d] by (simp add: make_request_def)
  then have len: "\<not> length (cands ?rq) \<le> 0" by auto
  have start: "run_start env d u = ?s1"
    using assms(1-3) len
    by (simp add: run_start_def tryNext_def Let_def fresh_def)
       (simp add: make_request_def)
  let ?s2 = "run_events ?rq (data_events 0 ds) ?s1"
  have pre: "0 < length (children ?s1)" "\<not> crashed ?s1" by (simp_all add: fresh_def)
  from data_events_effect [OF pre, of ?rq ds]
  have logs2: "child_logs (children ?s2 ! 0)
                 = info_line ?rq (candidates env d ! 0) @ concat (map snd ds)"
    and len2: "length (children ?s2) = 1" and nr2: "\<not> responded ?s2"
    and sent2: "sent ?s2 = []" and live2: "\<not> crashed ?s2"
    by (simp_all add: fresh_def)
  let ?s3 = "?s2\<lparr>disk := d'\<rparr>"
  have s3: "step ?rq (DiskChange d') ?s2 = ?s3" using live2 by simp
  have names3: "readdirSync (disk ?s3) (outDir ?rq) = Some names"
    using assms(4) by (simp add: make_request_def)
  have "api_run env d u (data_events 0 ds @ [DiskChange d', ChildClose 0 cd])
        = step ?rq (ChildClose 0 cd) (step ?rq (DiskChange d') ?s2)"
    by (simp only: api_run_def start run_events_append run_events.simps)
  then have whole:
    "api_run env d u (data_events 0 ds @ [DiskChange d', ChildClose 0 cd])
        = step ?rq (ChildClose 0 cd) ?s3"
    by (simp only: s3)
  have "step ?rq (ChildClose 0 cd) ?s3 = on_close ?rq 0 cd ?s3"
    using len2 live2 by simp
  moreover have "\<not> responded ?s3" "sent ?s3 = []" using nr2 sent2 by simp_all
  from on_close_sends [OF this names3, of 0 cd]
  have "sent (on_close ?rq 0 cd ?s3) =
     [Response 200 (ReportBody
        \<lparr>ok = (cd = Some 0), code = cd,
         logs = info_line ?rq (candidates env d ! 0) @ concat (map snd ds),
         files = filter (\<lambda>n. ends_with ''.docx'' (toLowerCase n)) names,
         legacy_summaries = existsSync d' (path_join env [OUTPUTS_DIR env, ''summaries.docx'']),
         legacy_flashcards = existsSync d' (path_join env [OUTPUTS_DIR env, ''flashcards.docx'']),
         legacy_formula_sheet =
           existsSync d' (path_join env [OUTPUTS_DIR env, ''formula_sheet.docx'']),
         outputs_summary = ''/api/download/summaries.docx'',
         outputs_flashcards = ''/api/download/flashcards.docx'',
         outputs_formulas = ''/api/download/formula_sheet.docx'',
         outputs_preview = ''/api/summary-preview''\<rparr>)]"
    using logs2 by (simp add: make_request_def)
  ultimately show ?thesis using whole by simp
qed

text \<open>
  What the close handler reports when it is the first to answer: for the first candidate
  that starts, produces the chunks \<open>ds\<close> and closes with a code other than 0, and for
  the close event of any child of a request that has not been answered.
\<close>

lemma close_handler_report:
  assumes "c \<noteq> 0"
  shows
    "(existsSync d (INPUTS_DIR env) \<and> readdirSync d (INPUTS_DIR env) = Some entries
        \<and> entries \<noteq> [] \<and> readdirSync d' (OUTPUTS_DIR env) = Some names \<longrightarrow>
      sent (api_run env d u (data_events 0 ds @ [DiskChange d', ChildClose 0 (Some c)])) =
     [Response 200 (ReportBody
        \<lparr>ok = False, code = Some c,
         logs = info_line (make_request env d u) (candidates env d ! 0) @ concat (map snd ds),
         files = filter (\<lambda>n. ends_with ''.docx'' (toLowerCase n)) names,
         legacy_summaries = existsSync d' (path_join env [OUTPUTS_DIR env, ''summaries.docx'']),
         legacy_flashcards = existsSync d' (path_join env [OUTPUTS_DIR env, ''flashcards.docx'']),
         legacy_formula_sheet =
           existsSync d' (path_join env [OUTPUTS_DIR env, ''formula_sheet.docx'']),
         outputs_summary = ''/api/download/summaries.docx'',
         outputs_flashcards = ''/api/download/flashcards.docx'',
         outputs_formulas = ''/api/download/formula_sheet.docx'',
         outputs_preview = ''/api/summary-preview''\<rparr>)])
     \<and> (k < length (children (api_run env d u es)) \<and> \<not> responded (api_run env d u es)
        \<and> readdirSync (disk (api_run env d u es)) (OUTPUTS_DIR env) = Some names' \<longrightarrow>
      sent (api_run env d u (es @ [ChildClose k (Some c)])) =
     [Response 200 (ReportBody
        \<lparr>ok = False, code = Some c,
         logs = child_logs (children (api_run env d u es) ! k),
         files = filter (\<lambda>n. ends_with ''.docx'' (toLowerCase n)) names',
         legacy_summaries = existsSync (disk (api_run env d u es)) (path_join env [OUTPUTS_DIR env, ''summaries.docx'']),
         legacy_flashcards = existsSync (disk (api_run env d u es)) (path_join env [OUTPUTS_DIR env, ''flashcards.docx'']),
         legacy_formula_sheet =
           existsSync (disk (api_run env d u es)) (path_join env [OUTPUTS_DIR env, ''formula_sheet.docx'']),
         outputs_summary = ''/api/download/summaries.docx'',
         outputs_flashcards = ''/api/download/flashcards.docx'',
         outputs_formulas = ''/api/download/formula_sheet.docx'',
         outputs_preview = ''/api/summary-preview''\<rparr>)])"
proof (intro conjI impI)
  assume "existsSync d (INPUTS_DIR env) \<and> readdirSync d (INPUTS_DIR env) = Some entries
        \<and> entries \<noteq> [] \<and> readdirSync d' (OUTPUTS_DIR env) = Some names"
  then have a: "existsSync d (INPUTS_DIR env)"
    and b: "readdirSync d (INPUTS_DIR env) = Some entries" and c: "entries \<noteq> []"
    and e: "readdirSync d' (OUTPUTS_DIR env) = Some names"
    by simp_all
  from first_attempt_report [OF a b c e, of u ds "Some c"] assms
  show "sent (api_run env d u (data_events 0 ds @ [DiskChange d', ChildClose 0 (Some c)])) =
     [Response 200 (ReportBody
        \<lparr>ok = False, code = Some c,
         logs = info_line (make_request env d u) (candidates env d ! 0) @ concat (map snd ds),
         files = filter (\<lambda>n. ends_with ''.docx'' (toLowerCase n)) names,
         legacy_summaries = existsSync d' (path_join env [OUTPUTS_DIR env, ''summaries.docx'']),
         legacy_flashcards = existsSync d' (path_join env [OUTPUTS_DIR env, ''flashcards.docx'']),
         legacy_formula_sheet =
           existsSync d' (path_join env [OUTPUTS_DIR env, ''formula_sheet.docx'']),
         outputs_summary = ''/api/download/summaries.docx'',
         outputs_flashcards = ''/api/download/flashcards.docx'',
         outputs_formulas = ''/api/download/formula_sheet.docx'',
         outputs_preview = ''/api/summary-preview''\<rparr>)]"
    by simp
next
  assume "k < length (children (api_run env d u es)) \<and> \<not> responded (api_run env d u es)
        \<and> readdirSync (disk (api_run env d u es)) (OUTPUTS_DIR env) = Some names'"
  then have a: "k < length (children (api_run env d u es))"
    and b: "\<not> responded (api_run env d u es)"
    and e: "readdirSync (disk (api_run env d u es)) (OUTPUTS_DIR env) = Some names'"
    by simp_all
  from close_reports_failure [OF a b assms e]
  show "sent (api_run env d u (es @ [ChildClose k (Some c)])) =
     [Response 200 (ReportBody
        \<lparr>ok = False, code = Some c,
         logs = child_logs (children (api_run env d u es) ! k),
         files = filter (\<lambda>n. ends_with ''.docx'' (toLowerCase n)) names',
         legacy_summaries = existsSync (disk (api_run env d u es)) (path_join env [OUTPUTS_DIR env, ''summaries.docx'']),
         legacy_flashcards = existsSync (disk (api_run env d u es)) (path_join env [OUTPUTS_DIR env, ''flashcards.docx'']),
         legacy_formula_sheet =
           existsSync (disk (api_run env d u es)) (path_join env [OUTPUTS_DIR env, ''formula_sheet.docx'']),
         outputs_summary = ''/api/download/summaries.docx'',
         outputs_flashcards = ''/api/download/flashcards.docx'',
         outputs_formulas = ''/api/download/formula_sheet.docx'',
         outputs_preview = ''/api/summary-preview''\<rparr>)]"
    .
qed

lemma failed_spawn_close_answers:
  assumes "existsSync d (INPUTS_DIR env)"
    and "readdirSync d (INPUTS_DIR env) = Some entries" and "entries \<noteq> []"
    and "readdirSync d (OUTPUTS_DIR env) = Some names"
  shows "sent (api_run env d u (ChildError 0 # ChildClose 0 cd # es)) =
     [Response 200 (ReportBody
        \<lparr>ok = (cd = Some 0), code = cd,
         logs = info_line (make_request env d u) (candidates env d ! 0),
         files = filter (\<lambda>n. ends_with ''.docx'' (toLowerCase n)) names,
         legacy_summaries = existsSync d (path_join env [OUTPUTS_DIR env, ''summaries.docx'']),
         legacy_flashcards = existsSync d (path_join env [OUTPUTS_DIR env, ''flashcards.docx'']),
         legacy_formula_sheet =
           existsSync d (path_join env [OUTPUTS_DIR env, ''formula_sheet.docx'']),
         outputs_summary = ''/api/download/summaries.docx'',
         outputs_flashcards = ''/api/download/flashcards.docx'',
         outputs_formulas = ''/api/download/formula_sheet.docx'',
         outputs_preview = ''/api/summary-preview''\<rparr>)]"
proof -
  let ?rq = "make_request env d u"
  let ?c0 = "\<lparr>idx = 0, exe = candidates env d ! 0,
              child_logs = info_line ?rq (candidates env d ! 0), started = False\<rparr>"
  let ?c1 = "\<lparr>idx = 1, exe = candidates env d ! 1,
              child_logs = info_line ?rq (candidates env d ! 1), started = False\<rparr>"
  let ?s1 = "(fresh d)\<lparr>children := [?c0, ?c1]\<rparr>"
  have two: "2 \<le> length (cands ?rq)"
    using candidates_at_least_two [of env d] by (simp add: make_request_def)
  then have len: "\<not> length (cands ?rq) \<le> 0" "\<not> length (cands ?rq) \<le> Suc 0"
    by auto
  have start: "run_start env d u = (fresh d)\<lparr>children := [?c0]\<rparr>"
    using assms(1-3) len(1)
    by (simp add: run_start_def tryNext_def Let_def fresh_def)
       (simp add: make_request_def)
  have s1: "api_run env d u [ChildError 0] = ?s1"
    using len(2)
    by (simp add: api_run_def start on_error_def tryNext_def Let_def fresh_def)
       (simp add: make_request_def)
  let ?t = "step ?rq (ChildClose 0 cd) ?s1"
  have names1: "readdirSync (disk ?s1) (outDir ?rq) = Some names"
    using assms(4) by (simp add: make_request_def fresh_def)
  have nr: "\<not> responded ?s1" and empty: "sent ?s1 = []" by (simp_all add: fresh_def)
  have t_eq: "?t = on_close ?rq 0 cd ?s1" by (simp add: fresh_def)
  from on_close_sends [OF nr empty names1, of 0 cd]
  have sent_t: "sent ?t =
     [Response 200 (ReportBody
        \<lparr>ok = (cd = Some 0), code = cd,
         logs = info_line ?rq (candidates env d ! 0),
         files = filter (\<lambda>n. ends_with ''.docx'' (toLowerCase n)) names,
         legacy_summaries = existsSync d (path_join env [OUTPUTS_DIR env, ''summaries.docx'']),
         legacy_flashcards = existsSync d (path_join env [OUTPUTS_DIR env, ''flashcards.docx'']),
         legacy_formula_sheet =
           existsSync d (path_join env [OUTPUTS_DIR env, ''formula_sheet.docx'']),
         outputs_summary = ''/api/download/summaries.docx'',
         outputs_flashcards = ''/api/download/flashcards.docx'',
         outputs_formulas = ''/api/download/formula_sheet.docx'',
         outputs_preview = ''/api/summary-preview''\<rparr>)]"
    unfolding t_eq by (simp add: make_request_def fresh_def)
  then have ne: "sent ?t \<noteq> []" by simp
  have "settled_once ?s1" unfolding s1 [symmetric] by (rule api_run_settled_once)
  then have "settled_once ?t" by (rule step_settled_once)
  with ne have "sent (run_events ?rq es ?t) = sent ?t" by (rule run_events_frozen)
  moreover have "api_run env d u (ChildError 0 # ChildClose 0 cd # es) = run_events ?rq es ?t"
    using api_run_append [of env d u "[ChildError 0]" "ChildClose 0 cd # es"]
    by (simp only: append.simps s1 run_events.simps)
  ultimately show ?thesis using sent_t by simp
qed

text \<open>
  C3 fails on the code. When the first candidate fails to spawn, its close event follows
  its error event, and the close handler, which does not test \<^verbatim>\<open>started\<close> as the error
  handler does, answers the request for it. The second candidate, spawned by the error
  handler, starts, produces the chunks \<open>ds\<close> and exits with the code \<open>c\<close>, and none
  of that is reported: the response has the error number \<open>e\<close> of the first candidate
  in its code field and only the informational line of the first candidate as its log.
\<close>

theorem nonzero_exit_hidden_by_failed_spawn:
  assumes "existsSync d (INPUTS_DIR env)"
    and "readdirSync d (INPUTS_DIR env) = Some entries" and "entries \<noteq> []"
    and "readdirSync d (OUTPUTS_DIR env) = Some names"
  shows "sent (api_run env d u
           (ChildError 0 # ChildClose 0 (Some e) # data_events 1 ds @ [ChildClose 1 (Some c)])) =
     [Response 200 (ReportBody
        \<lparr>ok = (e = 0), code = Some e,
         logs = info_line (make_request env d u) (candidates env d ! 0),
         files = filter (\<lambda>n. ends_with ''.docx'' (toLowerCase n)) names,
         legacy_summaries = existsSync d (path_join env [OUTPUTS_DIR env, ''summaries.docx'']),
         legacy_flashcards = existsSync d (path_join env [OUTPUTS_DIR env, ''flashcards.docx'']),
         legacy_formula_sheet =
           existsSync d (path_join env [OUTPUTS_DIR env, ''formula_sheet.docx'']),
         outputs_summary = ''/api/download/summaries.docx'',
         outputs_flashcards = ''/api/download/flashcards.docx'',
         outputs_formulas = ''/api/download/formula_sheet.docx'',
         outputs_preview = ''/api/summary-preview''\<rparr>)]"
  using failed_spawn_close_answers [OF assms, of u "Some e" "data_events 1 ds @ [ChildClose 1 (Some c)]"]
  by simp

theorem nonzero_exit_hidden_by_failed_spawn_witness:
  "sent (api_run plain_env notes_disk None
      (ChildError 0 # ChildClose 0 (Some (- 2))
         # data_events 1 [(False, ''working ''), (True, ''Traceback'')] @ [ChildClose 1 (Some 2)]))
   = [Response 200 (ReportBody
        \<lparr>ok = False, code = Some (- 2),
         logs = ''[INFO] Trying Python: python -m src.agent.cli /srv/app/inputs --out /srv/app/outputs'' @ [CHR 0x0A],
         files = [''summaries.docx'', ''Extra.DOCX''],
         legacy_summaries = True, legacy_flashcards = False, legacy_formula_sheet = False,
         outputs_summary = ''/api/download/summaries.docx'',
         outputs_flashcards = ''/api/download/flashcards.docx'',
         outputs_formulas = ''/api/download/formula_sheet.docx'',
         outputs_preview = ''/api/summary-preview''\<rparr>)]
   \<and> Some (- 2) \<noteq> Some (2::int)
   \<and> \<not> has_substring ''working Traceback'' (''[INFO] Trying Python: python -m src.agent.cli /srv/app/inputs --out /srv/app/outputs'' @ [CHR 0x0A])"
proof -
  have in1: "existsSync notes_disk (INPUTS_DIR plain_env)"
    and in2: "readdirSync notes_disk (INPUTS_DIR plain_env) = Some [''notes.pdf'']"
    and in3: "[''notes.pdf''] \<noteq> []"
    and out: "readdirSync notes_disk (OUTPUTS_DIR plain_env)
                = Some [''summaries.docx'', ''Extra.DOCX'', ''run.log'']"
    by (simp_all add: notes_disk_def INPUTS_DIR_def OUTPUTS_DIR_def plain_env_def)
  have ev: "filter (\<lambda>n. ends_with ''.docx'' (toLowerCase n))
              [''summaries.docx'', ''Extra.DOCX'', ''run.log'']
            = [''summaries.docx'', ''Extra.DOCX'']"
    by (simp add: ends_with_def toLowerCase_def lower_char_def char_of_def bit_Suc_0_iff)
  from nonzero_exit_hidden_by_failed_spawn [OF in1 in2 in3 out, of None "- 2"
      "[(False, ''working ''), (True, ''Traceback'')]" 2]
  have "sent (api_run plain_env notes_disk None
      (ChildError 0 # ChildClose 0 (Some (- 2))
         # data_events 1 [(False, ''working ''), (True, ''Traceback'')] @ [ChildClose 1 (Some 2)]))
   = [Response 200 (ReportBody
        \<lparr>ok = False, code = Some (- 2),
         logs = ''[INFO] Trying Python: python -m src.agent.cli /srv/app/inputs --out /srv/app/outputs'' @ [CHR 0x0A],
         files = [''summaries.docx'', ''Extra.DOCX''],
         legacy_summaries = True, legacy_flashcards = False, legacy_formula_sheet = False,
         outputs_summary = ''/api/download/summaries.docx'',
         outputs_flashcards = ''/api/download/flashcards.docx'',
         outputs_formulas = ''/api/download/formula_sheet.docx'',
         outputs_preview = ''/api/summary-preview''\<rparr>)]"
    unfolding ev plain_candidates
    by (simp add: info_line_def spawn_args_def make_request_def INPUTS_DIR_def OUTPUTS_DIR_def
          plain_env_def notes_disk_def)
  then show ?thesis by simp
qed

subsection \<open>Rejection of an empty input directory\<close>

text \<open>
  C6. When the input directory is missing or has no entries, the only response is the
  status 400, and no child is spawned, whatever events arrive.
\<close>

theorem run_rejects_empty_inputs:
  assumes "\<not> existsSync d (INPUTS_DIR env) \<or> readdirSync d (INPUTS_DIR env) = Some []"
  shows "sent (api_run env d u es) = [Response 400 (ErrorBody ''No uploaded files in inputs/'')]
         \<and> children (api_run env d u es) = []"
proof -
  let ?s = "(fresh d)\<lparr>sent := [Response 400 (ErrorBody ''No uploaded files in inputs/'')]\<rparr>"
  from assms have "run_start env d u = ?s"
    by (auto simp: run_start_def)
  moreover have "children ?s = []" by (simp add: fresh_def)
  ultimately show ?thesis
    using run_events_no_children [of ?s "make_request env d u" es]
    by (simp add: api_run_def)
qed

theorem run_rejects_empty_inputs_witness:
  "readdirSync empty_disk (INPUTS_DIR demo_env) = Some []
   \<and> sent (api_run demo_env empty_disk None [ChildError 0, ChildClose 0 (Some 0)])
       = [Response 400 (ErrorBody ''No uploaded files in inputs/'')]
   \<and> children (api_run demo_env empty_disk None [ChildError 0, ChildClose 0 (Some 0)]) = []"
proof -
  have h: "readdirSync empty_disk (INPUTS_DIR demo_env) = Some []"
    by (simp add: empty_disk_def demo_env_def INPUTS_DIR_def)
  then have "\<not> existsSync empty_disk (INPUTS_DIR demo_env)
             \<or> readdirSync empty_disk (INPUTS_DIR demo_env) = Some []" by simp
  from run_rejects_empty_inputs [OF this] h show ?thesis by simp
qed

subsection \<open>The result of the second attempt\<close>

text \<open>
  C7 fails on the code. When candidate 1 fails to spawn before producing output, the
  error handler spawns candidate 2, and the close event of candidate 1, which follows its
  error event, answers the request through the close handler, which does not test
  \<^verbatim>\<open>started\<close>. Whatever candidate 2 then does, the response stays that one: its log is
  the informational line of candidate 1 without any output of candidate 2, and its code
  is the code of the close event of candidate 1, not the exit code of candidate 2.
\<close>

theorem second_candidate_result_lost:
  assumes "existsSync d (INPUTS_DIR env)"
    and "readdirSync d (INPUTS_DIR env) = Some entries" and "entries \<noteq> []"
    and "readdirSync d (OUTPUTS_DIR env) = Some names"
  shows "map idx (children (api_run env d u [ChildError 0])) = [0, 1]
     \<and> sent (api_run env d u (ChildError 0 # ChildClose 0 cd # es)) =
     [Response 200 (ReportBody
        \<lparr>ok = (cd = Some 0), code = cd,
         logs = info_line (make_request env d u) (candidates env d ! 0),
         files = filter (\<lambda>n. ends_with ''.docx'' (toLowerCase n)) names,
         legacy_summaries = existsSync d (path_join env [OUTPUTS_DIR env, ''summaries.docx'']),
         legacy_flashcards = existsSync d (path_join env [OUTPUTS_DIR env, ''flashcards.docx'']),
         legacy_formula_sheet =
           existsSync d (path_join env [OUTPUTS_DIR env, ''formula_sheet.docx'']),
         outputs_summary = ''/api/download/summaries.docx'',
         outputs_flashcards = ''/api/download/flashcards.docx'',
         outputs_formulas = ''/api/download/formula_sheet.docx'',
         outputs_preview = ''/api/summary-preview''\<rparr>)]"
proof
  have "\<not> length (cands (make_request env d u)) \<le> 0"
    "\<not> length (cands (make_request env d u)) \<le> Suc 0"
    using candidates_at_least_two [of env d] by (auto simp: make_request_def)
  then show "map idx (children (api_run env d u [ChildError 0])) = [0, 1]"
    using assms(1-3)
    by (simp add: api_run_def run_start_def on_error_def tryNext_def Let_def fresh_def)
  show "sent (api_run env d u (ChildError 0 # ChildClose 0 cd # es)) =
     [Response 200 (ReportBody
        \<lparr>ok = (cd = Some 0), code = cd,
         logs = info_line (make_request env d u) (candidates env d ! 0),
         files = filter (\<lambda>n. ends_with ''.docx'' (toLowerCase n)) names,
         legacy_summaries = existsSync d (path_join env [OUTPUTS_DIR env, ''summaries.docx'']),
         legacy_flashcards = existsSync d (path_join env [OUTPUTS_DIR env, ''flashcards.docx'']),
         legacy_formula_sheet =
           existsSync d (path_join env [OUTPUTS_DIR env, ''formula_sheet.docx'']),
         outputs_summary = ''/api/download/summaries.docx'',
         outputs_flashcards = ''/api/download/flashcards.docx'',
         outputs_formulas = ''/api/download/formula_sheet.docx'',
         outputs_preview = ''/api/summary-preview''\<rparr>)]"
    by (rule failed_spawn_close_answers [OF assms])
qed

theorem second_candidate_result_lost_witness:
  "map idx (children (api_run plain_env notes_disk None [ChildError 0])) = [0, 1]
   \<and> sent (api_run plain_env notes_disk None
      (ChildError 0 # ChildClose 0 (Some (- 2)) # [Stdout 1 ''done'', ChildClose 1 (Some 0)]))
   = [Response 200 (ReportBody
        \<lparr>ok = False, code = Some (- 2),
         logs = ''[INFO] Trying Python: python -m src.agent.cli /srv/app/inputs --out /srv/app/outputs'' @ [CHR 0x0A],
         files = [''summaries.docx'', ''Extra.DOCX''],
         legacy_summaries = True, legacy_flashcards = False, legacy_formula_sheet = False,
         outputs_summary = ''/api/download/summaries.docx'',
         outputs_flashcards = ''/api/download/flashcards.docx'',
         outputs_formulas = ''/api/download/formula_sheet.docx'',
         outputs_preview = ''/api/summary-preview''\<rparr>)]
   \<and> Some (- 2) \<noteq> Some (0::int)
   \<and> \<not> has_substring ''done'' (''[INFO] Trying Python: python -m src.agent.cli /srv/app/inputs --out /srv/app/outputs'' @ [CHR 0x0A])"
proof -
  have in1: "existsSync notes_disk (INPUTS_DIR plain_env)"
    and in2: "readdirSync notes_disk (INPUTS_DIR plain_env) = Some [''notes.pdf'']"
    and in3: "[''notes.pdf''] \<noteq> []"
    and out: "readdirSync notes_disk (OUTPUTS_DIR plain_env)
                = Some [''summaries.docx'', ''Extra.DOCX'', ''run.log'']"
    by (simp_all add: notes_disk_def INPUTS_DIR_def OUTPUTS_DIR_def plain_env_def)
  have ev: "filter (\<lambda>n. ends_with ''.docx'' (toLowerCase n))
              [''summaries.docx'', ''Extra.DOCX'', ''run.log'']
            = [''summaries.docx'', ''Extra.DOCX'']"
    by (simp add: ends_with_def toLowerCase_def lower_char_def char_of_def bit_Suc_0_iff)
  note inst = second_candidate_result_lost [OF in1 in2 in3 out, of None "Some (- 2)"
      "[Stdout 1 ''done'', ChildClose 1 (Some 0)]"]
  from inst have first: "map idx (children (api_run plain_env notes_disk None [ChildError 0]))
                           = [0, 1]"
    by (rule conjunct1)
  from inst have "sent (api_run plain_env notes_disk None
      (ChildError 0 # ChildClose 0 (Some (- 2)) # [Stdout 1 ''done'', ChildClose 1 (Some 0)]))
   = [Response 200 (ReportBody
        \<lparr>ok = (Some (- 2) = Some (0::int)), code = Some (- 2),
         logs = info_line (make_request plain_env notes_disk None) (candidates plain_env notes_disk ! 0),
         files = filter (\<lambda>n. ends_with ''.docx'' (toLowerCase n)) [''summaries.docx'', ''Extra.DOCX'', ''run.log''],
         legacy_summaries = existsSync notes_disk (path_join plain_env [OUTPUTS_DIR plain_env, ''summaries.docx'']),
         legacy_flashcards = existsSync notes_disk (path_join plain_env [OUTPUTS_DIR plain_env, ''flashcards.docx'']),
         legacy_formula_sheet =
           existsSync notes_disk (path_join plain_env [OUTPUTS_DIR plain_env, ''formula_sheet.docx'']),
         outputs_summary = ''/api/download/summaries.docx'',
         outputs_flashcards = ''/api/download/flashcards.docx'',
         outputs_formulas = ''/api/download/formula_sheet.docx'',
         outputs_preview = ''/api/summary-preview''\<rparr>)]"
    by (rule conjunct2)
  then have "sent (api_run plain_env notes_disk None
      (ChildError 0 # ChildClose 0 (Some (- 2)) # [Stdout 1 ''done'', ChildClose 1 (Some 0)]))
   = [Response 200 (ReportBody
        \<lparr>ok = False, code = Some (- 2),
         logs = ''[INFO] Trying Python: python -m src.agent.cli /srv/app/inputs --out /srv/app/outputs'' @ [CHR 0x0A],
         files = [''summaries.docx'', ''Extra.DOCX''],
         legacy_summaries = True, legacy_flashcards = False, legacy_formula_sheet = False,
         outputs_summary = ''/api/download/summaries.docx'',
         outputs_flashcards = ''/api/download/flashcards.docx'',
         outputs_formulas = ''/api/download/formula_sheet.docx'',
         outputs_preview = ''/api/summary-preview''\<rparr>)]"
    unfolding ev plain_candidates
    by (simp add: info_line_def spawn_args_def make_request_def INPUTS_DIR_def OUTPUTS_DIR_def
          plain_env_def notes_disk_def)
  with first show ?thesis by simp
qed

text \<open>
  With an order of events in which the close event of the first candidate is not handled
  before that of the second, the close handler reports the second attempt from its own
  log: the informational line of candidate 2 followed by its chunks.
\<close>

lemma second_attempt_first_close:
  assumes "existsSync d (INPUTS_DIR env)"
    and "readdirSync d (INPUTS_DIR env) = Some entries" and "entries \<noteq> []"
    and "readdirSync d' (OUTPUTS_DIR env) = Some names"
  shows "sent (api_run env d u
           (ChildError 0 # data_events 1 ds @ [DiskChange d', ChildClose 1 cd])) =
     [Response 200 (ReportBody
        \<lparr>ok = (cd = Some 0), code = cd,
         logs = info_line (make_request env d u) (candidates env d ! 1) @ concat (map snd ds),
         files = filter (\<lambda>n. ends_with ''.docx'' (toLowerCase n)) names,
         legacy_summaries = existsSync d' (path_join env [OUTPUTS_DIR env, ''summaries.docx'']),
         legacy_flashcards = existsSync d' (path_join env [OUTPUTS_DIR env, ''flashcards.docx'']),
         legacy_formula_sheet =
           existsSync d' (path_join env [OUTPUTS_DIR env, ''formula_sheet.docx'']),
         outputs_summary = ''/api/download/summaries.docx'',
         outputs_flashcards = ''/api/download/flashcards.docx'',
         outputs_formulas = ''/api/download/formula_sheet.docx'',
         outputs_preview = ''/api/summary-preview''\<rparr>)]"
proof -
  let ?rq = "make_request env d u"
  let ?c0 = "\<lparr>idx = 0, exe = candidates env d ! 0,
              child_logs = info_line ?rq (candidates env d ! 0), started = False\<rparr>"
  let ?c1 = "\<lparr>idx = 1, exe = candidates env d ! 1,
              child_logs = info_line ?rq (candidates env d ! 1), started = False\<rparr>"
  let ?s1 = "(fresh d)\<lparr>children := [?c0, ?c1]\<rparr>"
  have two: "2 \<le> length (cands ?rq)"
    using candidates_at_least_two [of env d] by (simp add: make_request_def)
  then have len: "\<not> length (cands ?rq) \<le> 0" "\<not> length (cands ?rq) \<le> Suc 0"
    by auto
  have start: "run_start env d u = (fresh d)\<lparr>children := [?c0]\<rparr>"
    using assms(1-3) len(1)
    by (simp add: run_start_def tryNext_def Let_def fresh_def)
       (simp add: make_request_def)
  have s1: "api_run env d u [ChildError 0] = ?s1"
    using len(2)
    by (simp add: api_run_def start on_error_def tryNext_def Let_def fresh_def)
       (simp add: make_request_def)
  let ?s2 = "run_events ?rq (data_events 1 ds) ?s1"
  have pre: "1 < length (children ?s1)" "\<not> crashed ?s1" by (simp_all add: fresh_def)
  from data_events_effect [OF pre, of ?rq ds]
  have logs2: "child_logs (children ?s2 ! 1) = info_line ?rq (candidates env d ! 1) @ concat (map snd ds)"
    and len2: "length (children ?s2) = 2" and nr2: "\<not> responded ?s2"
    and sent2: "sent ?s2 = []" and live2: "\<not> crashed ?s2"
    by (simp_all add: fresh_def)
  let ?s3 = "?s2\<lparr>disk := d'\<rparr>"
  have s3: "step ?rq (DiskChange d') ?s2 = ?s3" using live2 by simp
  have names3: "readdirSync (disk ?s3) (outDir ?rq) = Some names"
    using assms(4) by (simp add: make_request_def)
  have "api_run env d u (ChildError 0 # data_events 1 ds @ [DiskChange d', ChildClose 1 cd])
        = run_events ?rq (data_events 1 ds @ [DiskChange d', ChildClose 1 cd])
            (api_run env d u [ChildError 0])"
    using api_run_append [of env d u "[ChildError 0]"
        "data_events 1 ds @ [DiskChange d', ChildClose 1 cd]"]
    by (simp only: append.simps)
  also have "\<dots> = step ?rq (ChildClose 1 cd) (step ?rq (DiskChange d') ?s2)"
    by (simp only: s1 run_events_append run_events.simps)
  finally have whole:
    "api_run env d u (ChildError 0 # data_events 1 ds @ [DiskChange d', ChildClose 1 cd])
        = step ?rq (ChildClose 1 cd) ?s3"
    by (simp only: s3)
  have "step ?rq (ChildClose 1 cd) ?s3 = on_close ?rq 1 cd ?s3"
    using len2 live2 by simp
  moreover have "\<not> responded ?s3" "sent ?s3 = []" using nr2 sent2 by simp_all
  from on_close_sends [OF this names3, of 1 cd]
  have "sent (on_close ?rq 1 cd ?s3) =
     [Response 200 (ReportBody
        \<lparr>ok = (cd = Some 0), code = cd,
         logs = info_line ?rq (candidates env d ! 1) @ concat (map snd ds),
         files = filter (\<lambda>n. ends_with ''.docx'' (toLowerCase n)) names,
         legacy_summaries = existsSync d' (path_join env [OUTPUTS_DIR env, ''summaries.docx'']),
         legacy_flashcards = existsSync d' (path_join env [OUTPUTS_DIR env, ''flashcards.docx'']),
         legacy_formula_sheet =
           existsSync d' (path_join env [OUTPUTS_DIR env, ''formula_sheet.docx'']),
         outputs_summary = ''/api/download/summaries.docx'',
         outputs_flashcards = ''/api/download/flashcards.docx'',
         outputs_formulas = ''/api/download/formula_sheet.docx'',
         outputs_preview = ''/api/summary-preview''\<rparr>)]"
    using logs2 by (simp add: make_request_def)
  ultimately show ?thesis using whole by simp
qed

subsection \<open>The order of the candidates\<close>

text \<open>
  C8, as stated, fails: with an interpreter present in the local virtual environment, the
  head of the candidate list is that interpreter and not the override from
  \<^verbatim>\<open>PYTHON_EXEC\<close>.
\<close>

theorem override_not_first_counterexample:
  "PYTHON_EXEC demo_env = Some '' /opt/py/bin/python3.11 ''
   \<and> trim '' /opt/py/bin/python3.11 '' \<noteq> []
   \<and> candidates demo_env venv_disk
       = [''/srv/app/.venv/bin/python'', ''/opt/py/bin/python3.11'', ''python'', ''python3'']
   \<and> hd (candidates demo_env venv_disk) \<noteq> ''/opt/py/bin/python3.11''"
  by (simp add: candidates_def demo_env_def venv_disk_def trim_demo)

text \<open>
  C8, amended. When \<^verbatim>\<open>PYTHON_EXEC\<close> is set to a value that is not blank, the candidate
  list is: the interpreters of the local virtual environment that exist, then the trimmed
  override, then \<^verbatim>\<open>py\<close> on win32 only, then \<^verbatim>\<open>python\<close> and \<^verbatim>\<open>python3\<close>.
\<close>

theorem override_after_venv_before_fallbacks:
  assumes "PYTHON_EXEC env = Some p" and "trim p \<noteq> []"
  shows "candidates env fs =
           venv_candidates env fs @ [trim p]
           @ (if platform env = ''win32'' then [''py''] else []) @ [''python'', ''python3'']"
proof -
  from assms(2) have "p \<noteq> []" by (auto simp: trim_def)
  with assms show ?thesis
    by (simp add: candidates_def venv_candidates_def Let_def)
qed

theorem override_after_venv_before_fallbacks_witness:
  "PYTHON_EXEC demo_env = Some '' /opt/py/bin/python3.11 ''
   \<and> trim '' /opt/py/bin/python3.11 '' \<noteq> []
   \<and> candidates demo_env venv_disk =
       venv_candidates demo_env venv_disk @ [''/opt/py/bin/python3.11'']
       @ (if platform demo_env = ''win32'' then [''py''] else []) @ [''python'', ''python3'']"
proof -
  have a: "PYTHON_EXEC demo_env = Some '' /opt/py/bin/python3.11 ''"
    by (simp add: demo_env_def)
  have b: "trim '' /opt/py/bin/python3.11 '' \<noteq> []"
    by (simp add: trim_demo)
  from override_after_venv_before_fallbacks [OF a b, of venv_disk] a b show ?thesis
    by (simp add: trim_demo)
qed

section \<open>Properties of the patterns\<close>

subsection \<open>The matcher and the declarative reading agree\<close>

lemma star_unfold:
  "(s, t) \<in> (shrink f)\<^sup>* \<longleftrightarrow>
     t = s \<or> (\<exists>m. m \<in> f s \<and> length m < length s \<and> (m, t) \<in> (shrink f)\<^sup>*)"
proof
  assume "(s, t) \<in> (shrink f)\<^sup>*"
  then show "t = s \<or> (\<exists>m. m \<in> f s \<and> length m < length s \<and> (m, t) \<in> (shrink f)\<^sup>*)"
    by (cases rule: converse_rtranclE) (auto simp: shrink_def)
next
  assume "t = s \<or> (\<exists>m. m \<in> f s \<and> length m < length s \<and> (m, t) \<in> (shrink f)\<^sup>*)"
  then show "(s, t) \<in> (shrink f)\<^sup>*"
    by (auto simp: shrink_def intro: converse_rtrancl_into_rtrancl)
qed

lemma ms_Star_set:
  "set (ms (Star a) (c, s)) =
     insert (c, s) (\<Union>st \<in> {st \<in> set (ms a (c, s)). length (snd st) < length s}.
                      set (ms (Star a) st))"
  by (subst ms.simps) (auto simp del: ms.simps split: if_splits)

lemma ms_Lazy_set:
  "set (ms (Lazy a) (c, s)) =
     insert (c, s) (\<Union>st \<in> {st \<in> set (ms a (c, s)). length (snd st) < length s}.
                      set (ms (Lazy a) st))"
  by (subst ms.simps) (auto simp del: ms.simps split: if_splits)

lemma ms_Seq_set: "set (ms (Seq a b) st) = (\<Union>m \<in> set (ms a st). set (ms b m))"
  by simp

lemma ms_rems_state: "snd ` set (ms r st) = rems r (snd st)"
proof (induction r st rule: ms.induct)
  case (1 p c s)
  then show ?case by (cases s) auto
next
  case (2 st)
  then show ?case by simp
next
  case (3 a b st)
  have "snd ` set (ms (Seq a b) st)
        = (\<Union>m \<in> set (ms a st). snd ` set (ms b m))"
    by auto
  also have "\<dots> = (\<Union>m \<in> set (ms a st). rems b (snd m))"
    using "3.IH"(2) by simp
  also have "\<dots> = (\<Union>m \<in> snd ` set (ms a st). rems b m)"
    by auto
  finally show ?case using "3.IH"(1) by simp
next
  case (4 a b st)
  then show ?case by (simp add: image_Un)
next
  case (5 a c s)
  have inner: "snd ` set (ms a (c, s)) = rems a s" using "5.IH"(1) by simp
  have rec: "\<And>st. st \<in> set (ms a (c, s)) \<Longrightarrow> length (snd st) < length s \<Longrightarrow>
               snd ` set (ms (Star a) st) = rems (Star a) (snd st)"
    using "5.IH"(2) by (metis prod.collapse)
  show ?case
  proof (rule set_eqI)
    fix t
    have "t \<in> snd ` set (ms (Star a) (c, s)) \<longleftrightarrow>
            t = s \<or> (\<exists>st \<in> set (ms a (c, s)). length (snd st) < length s
                       \<and> t \<in> snd ` set (ms (Star a) st))"
      unfolding ms_Star_set by (auto simp del: ms.simps)
    also have "\<dots> \<longleftrightarrow>
            t = s \<or> (\<exists>st \<in> set (ms a (c, s)). length (snd st) < length s
                       \<and> t \<in> rems (Star a) (snd st))"
      using rec by (auto simp del: ms.simps rems.simps)
    also have "\<dots> \<longleftrightarrow>
            t = s \<or> (\<exists>m \<in> snd ` set (ms a (c, s)). length m < length s
                       \<and> t \<in> rems (Star a) m)"
      by (auto simp del: ms.simps rems.simps)
    also have "\<dots> \<longleftrightarrow> t \<in> rems (Star a) s"
      unfolding inner using star_unfold [of s t "rems a"] by auto
    finally show "t \<in> snd ` set (ms (Star a) (c, s)) \<longleftrightarrow> t \<in> rems (Star a) (snd (c, s))"
      by (simp del: ms.simps rems.simps)
  qed
next
  case (6 a c s)
  have inner: "snd ` set (ms a (c, s)) = rems a s" using "6.IH"(1) by simp
  have rec: "\<And>st. st \<in> set (ms a (c, s)) \<Longrightarrow> length (snd st) < length s \<Longrightarrow>
               snd ` set (ms (Lazy a) st) = rems (Lazy a) (snd st)"
    using "6.IH"(2) by (metis prod.collapse)
  show ?case
  proof (rule set_eqI)
    fix t
    have "t \<in> snd ` set (ms (Lazy a) (c, s)) \<longleftrightarrow>
            t = s \<or> (\<exists>st \<in> set (ms a (c, s)). length (snd st) < length s
                       \<and> t \<in> snd ` set (ms (Lazy a) st))"
      unfolding ms_Lazy_set by (auto simp del: ms.simps)
    also have "\<dots> \<longleftrightarrow>
            t = s \<or> (\<exists>st \<in> set (ms a (c, s)). length (snd st) < length s
                       \<and> t \<in> rems (Lazy a) (snd st))"
      using rec by (auto simp del: ms.simps rems.simps)
    also have "\<dots> \<longleftrightarrow>
            t = s \<or> (\<exists>m \<in> snd ` set (ms a (c, s)). length m < length s
                       \<and> t \<in> rems (Lazy a) m)"
      by (auto simp del: ms.simps rems.simps)
    also have "\<dots> \<longleftrightarrow> t \<in> rems (Lazy a) s"
      unfolding inner using star_unfold [of s t "rems a"] by auto
    finally show "t \<in> snd ` set (ms (Lazy a) (c, s)) \<longleftrightarrow> t \<in> rems (Lazy a) (snd (c, s))"
      by (simp del: ms.simps rems.simps)
  qed
next
  case (7 a c s)
  have "snd ` set (ms (Group a) (c, s)) = snd ` set (ms a (c, s))"
    by (auto simp: image_iff) force+
  with "7.IH" show ?case by simp
next
  case (8 c s)
  then show ?case by simp
qed

lemma ms_rems: "snd ` set (ms r (c, s)) = rems r s"
  by (simp add: ms_rems_state)

lemma ms_in_rems: "(c', t) \<in> set (ms r (c, s)) \<Longrightarrow> t \<in> rems r s"
  using ms_rems [of r c s] by (metis image_eqI snd_conv)

lemma test_at_rems: "test_at r s \<longleftrightarrow> rems r s \<noteq> {}"
proof -
  have "ms r (None, s) \<noteq> [] \<longleftrightarrow> snd ` set (ms r (None, s)) \<noteq> {}" by simp
  then show ?thesis by (simp only: test_at_def ms_rems)
qed

lemma test_from_suffix:
  "test_from r s \<longleftrightarrow> (\<exists>pre tok. s = pre @ tok \<and> test_at r tok)"
proof (induction s)
  case Nil
  then show ?case by simp
next
  case (Cons x xs)
  show ?case
  proof
    assume "test_from r (x # xs)"
    then consider "test_at r (x # xs)" | "test_from r xs" by auto
    then show "\<exists>pre tok. x # xs = pre @ tok \<and> test_at r tok"
    proof cases
      case 1
      then have "x # xs = [] @ (x # xs) \<and> test_at r (x # xs)" by simp
      then show ?thesis by blast
    next
      case 2
      with Cons.IH obtain pre tok where "xs = pre @ tok" "test_at r tok" by blast
      then have "x # xs = (x # pre) @ tok \<and> test_at r tok" by simp
      then show ?thesis by blast
    qed
  next
    assume "\<exists>pre tok. x # xs = pre @ tok \<and> test_at r tok"
    then obtain pre tok where pt: "x # xs = pre @ tok" "test_at r tok" by blast
    show "test_from r (x # xs)"
    proof (cases pre)
      case Nil
      with pt have "test_at r (x # xs)" by simp
      then show ?thesis by simp
    next
      case (Cons y ys)
      with pt have "xs = ys @ tok" by simp
      with pt(2) Cons.IH show ?thesis by auto
    qed
  qed
qed

subsection \<open>What the parts of the patterns leave\<close>

lemma rems_Star_Atom:
  "rems (Star (Atom p)) s = {t. \<exists>u. s = u @ t \<and> (\<forall>c \<in> set u. p c)}"
proof (rule set_eqI, rule iffI)
  fix t
  assume "t \<in> rems (Star (Atom p)) s"
  then have "(s, t) \<in> (shrink (rems (Atom p)))\<^sup>*" by simp
  then have "\<exists>u. s = u @ t \<and> (\<forall>c \<in> set u. p c)"
  proof (induction rule: rtrancl_induct)
    case base
    then show ?case by simp
  next
    case (step m t)
    then obtain u where u: "s = u @ m" "\<forall>c \<in> set u. p c" by blast
    from step.hyps(2) obtain x where "m = x # t" "p x" by (auto simp: shrink_def)
    with u have "s = (u @ [x]) @ t \<and> (\<forall>c \<in> set (u @ [x]). p c)" by simp
    then show ?case by blast
  qed
  then show "t \<in> {t. \<exists>u. s = u @ t \<and> (\<forall>c \<in> set u. p c)}" by simp
next
  fix t
  assume "t \<in> {t. \<exists>u. s = u @ t \<and> (\<forall>c \<in> set u. p c)}"
  then obtain u where "s = u @ t" "\<forall>c \<in> set u. p c" by blast
  then have "(s, t) \<in> (shrink (rems (Atom p)))\<^sup>*"
  proof (induction u arbitrary: s)
    case Nil
    then show ?case by simp
  next
    case (Cons x u)
    then have "(x # u @ t, u @ t) \<in> shrink (rems (Atom p))" by (simp add: shrink_def)
    moreover from Cons.prems have "\<forall>c \<in> set u. p c" by simp
    with Cons.IH [of "u @ t"] have "(u @ t, t) \<in> (shrink (rems (Atom p)))\<^sup>*" by blast
    ultimately have "(x # u @ t, t) \<in> (shrink (rems (Atom p)))\<^sup>*"
      by (rule converse_rtrancl_into_rtrancl)
    with Cons.prems(1) show ?case by (simp del: rems.simps)
  qed
  then show "t \<in> rems (Star (Atom p)) s" by simp
qed

lemma rems_Plus_Atom:
  "rems (Plus (Atom p)) s = {t. \<exists>u. u \<noteq> [] \<and> s = u @ t \<and> (\<forall>c \<in> set u. p c)}"
proof (rule set_eqI, rule iffI)
  fix t
  assume "t \<in> rems (Plus (Atom p)) s"
  then obtain m where "m \<in> rems (Atom p) s" "t \<in> rems (Star (Atom p)) m"
    by (auto simp: Plus_def simp del: rems.simps(5))
  then obtain x u where "s = x # m" "p x" "m = u @ t" "\<forall>c \<in> set u. p c"
    by (auto simp: rems_Star_Atom simp del: rems.simps(5))
  then have "x # u \<noteq> [] \<and> s = (x # u) @ t \<and> (\<forall>c \<in> set (x # u). p c)" by simp
  then show "t \<in> {t. \<exists>u. u \<noteq> [] \<and> s = u @ t \<and> (\<forall>c \<in> set u. p c)}" by blast
next
  fix t
  assume "t \<in> {t. \<exists>u. u \<noteq> [] \<and> s = u @ t \<and> (\<forall>c \<in> set u. p c)}"
  then obtain u where u: "u \<noteq> []" "s = u @ t" "\<forall>c \<in> set u. p c" by blast
  then obtain x v where "u = x # v" by (cases u) auto
  with u have "v @ t \<in> rems (Atom p) s" "t \<in> rems (Star (Atom p)) (v @ t)"
    by (auto simp: rems_Star_Atom simp del: rems.simps(5))
  then show "t \<in> rems (Plus (Atom p)) s"
    unfolding Plus_def by (auto simp del: rems.simps(5))
qed

lemma rems_lit: "rems (lit w) s = {t. s = w @ t}"
  by (induction w arbitrary: s) (auto simp: ch_def)

lemma rems_liti:
  "rems (liti w) s = {t. \<exists>u. s = u @ t \<and> map ascii_fold u = map ascii_fold w}"
proof (induction w arbitrary: s)
  case Nil
  then show ?case by auto
next
  case (Cons x w)
  show ?case
  proof (rule set_eqI, rule iffI)
    fix t
    assume "t \<in> rems (liti (x # w)) s"
    then obtain y m where "s = y # m" "ascii_fold y = ascii_fold x" "t \<in> rems (liti w) m"
      by (auto simp: ci_def)
    with Cons.IH [of m] obtain u where "m = u @ t" "map ascii_fold u = map ascii_fold w"
      by blast
    with \<open>s = y # m\<close> \<open>ascii_fold y = ascii_fold x\<close>
    have "s = (y # u) @ t \<and> map ascii_fold (y # u) = map ascii_fold (x # w)" by simp
    then show "t \<in> {t. \<exists>u. s = u @ t \<and> map ascii_fold u = map ascii_fold (x # w)}" by blast
  next
    fix t
    assume "t \<in> {t. \<exists>u. s = u @ t \<and> map ascii_fold u = map ascii_fold (x # w)}"
    then obtain u where u: "s = u @ t" "map ascii_fold u = map ascii_fold (x # w)" by blast
    then obtain y v where yv: "u = y # v" "ascii_fold y = ascii_fold x"
      "map ascii_fold v = map ascii_fold w" by (cases u) auto
    with Cons.IH [of "v @ t"] have "t \<in> rems (liti w) (v @ t)" by blast
    with u yv show "t \<in> rems (liti (x # w)) s" by (auto simp: ci_def)
  qed
qed

lemma rems_Seq_Eol: "rems (Seq r Eol) s = (if [] \<in> rems r s then {[]} else {})"
  by (auto split: if_splits)

lemma rems_Seq_empty: "rems (Seq a b) s = {} \<longleftrightarrow> (\<forall>m \<in> rems a s. rems b m = {})"
  by auto

lemma shrink_suffix:
  assumes "\<And>u v. v \<in> f u \<Longrightarrow> \<exists>w. u = w @ v"
  shows "(s, t) \<in> (shrink f)\<^sup>* \<Longrightarrow> \<exists>w. s = w @ t"
proof (induction rule: rtrancl_induct)
  case base
  then show ?case by simp
next
  case (step m t)
  then obtain w where "s = w @ m" by blast
  moreover from step.hyps(2) assms obtain w' where "m = w' @ t"
    by (auto simp: shrink_def)
  ultimately have "s = (w @ w') @ t" by simp
  then show ?case by blast
qed

lemma rems_suffix: "t \<in> rems r s \<Longrightarrow> \<exists>w. s = w @ t"
proof (induction r arbitrary: s t)
  case (Atom p)
  then show ?case by auto
next
  case Eps
  then show ?case by simp
next
  case (Seq a b)
  then obtain m where "m \<in> rems a s" "t \<in> rems b m" by auto
  with Seq.IH obtain w w' where "s = w @ m" "m = w' @ t" by blast
  then have "s = (w @ w') @ t" by simp
  then show ?case by blast
next
  case (Alt a b)
  then show ?case by auto
next
  case (Star a)
  from Star.prems have "(s, t) \<in> (shrink (rems a))\<^sup>*" by simp
  then show ?case using Star.IH by (rule shrink_suffix [rotated])
next
  case (Lazy a)
  from Lazy.prems have "(s, t) \<in> (shrink (rems a))\<^sup>*" by simp
  then show ?case using Lazy.IH by (rule shrink_suffix [rotated])
next
  case (Group a)
  then show ?case by simp
next
  case Eol
  then show ?case by (auto split: if_splits)
qed

subsection \<open>The patterns of the server\<close>

lemma safe_names:
  "test_at safe name \<longleftrightarrow>
     (\<exists>stem. stem \<noteq> [] \<and> (\<forall>c \<in> set stem. safe_char c) \<and> name = stem @ ''.docx'')"
proof -
  have "test_at safe name \<longleftrightarrow>
          (\<exists>m \<in> rems (Plus (Atom safe_char)) name. \<exists>t \<in> rems (lit ''.docx'') m. t = [])"
    unfolding test_at_rems safe_def
    by (simp only: rems.simps) (auto split: if_splits)
  also have "\<dots> \<longleftrightarrow>
     (\<exists>stem. stem \<noteq> [] \<and> (\<forall>c \<in> set stem. safe_char c) \<and> name = stem @ ''.docx'')"
    unfolding rems_Plus_Atom rems_lit by blast
  finally show ?thesis .
qed

lemma rems_path_root:
  "rems (Alt (Seq (Atom ascii_letter) (Seq (ch CHR '':'') (ch (CHR 0x5C))))
           (Alt (Seq (ch (CHR 0x5C)) (ch (CHR 0x5C))) (ch CHR ''/''))) s
   = {t. \<exists>r. path_root r \<and> s = r @ t}"
  by (auto simp: ch_def path_root_def)

lemma rems_input_ext:
  "rems (Seq (Alt (liti ''pdf'') (Alt (liti ''txt'') (liti ''docx''))) Eol) s
   = (if input_ext s then {[]} else {})"
proof -
  have "[] \<in> rems (Alt (liti ''pdf'') (Alt (liti ''txt'') (liti ''docx''))) s \<longleftrightarrow> input_ext s"
    by (simp only: rems.simps rems_liti input_ext_def) auto
  then show ?thesis by (simp only: rems_Seq_Eol)
qed

lemma pathLike_token: "test_at pathLike tok \<longleftrightarrow> path_token tok"
proof -
  define root where "root = Alt (Seq (Atom ascii_letter) (Seq (ch CHR '':'') (ch (CHR 0x5C))))
           (Alt (Seq (ch (CHR 0x5C)) (ch (CHR 0x5C))) (ch CHR ''/''))"
  define body where "body = Plus (Atom (\<lambda>c. \<not> is_space c))"
  define ext where "ext = Seq (Alt (liti ''pdf'') (Alt (liti ''txt'') (liti ''docx''))) Eol"
  have shape: "pathLike = Seq root (Seq body (Seq (ch CHR ''.'') ext))"
    by (simp only: pathLike_def root_def body_def ext_def)
  have r: "\<And>s. rems root s = {t. \<exists>r. path_root r \<and> s = r @ t}"
    unfolding root_def by (rule rems_path_root)
  have b: "\<And>s. rems body s = {t. \<exists>u. u \<noteq> [] \<and> s = u @ t \<and> (\<forall>c \<in> set u. \<not> is_space c)}"
    unfolding body_def by (rule rems_Plus_Atom)
  have e: "\<And>s. rems ext s = {} \<longleftrightarrow> \<not> input_ext s"
    unfolding ext_def by (simp only: rems_input_ext) simp
  have d: "\<And>s. rems (ch CHR ''.'') s = {t. s = ''.'' @ t}"
    by (auto simp: ch_def)
  have "test_at pathLike tok \<longleftrightarrow>
          (\<exists>m \<in> rems root tok. \<exists>n \<in> rems body m. \<exists>x \<in> rems (ch CHR ''.'') n. input_ext x)"
    unfolding test_at_rems shape by (simp only: rems_Seq_empty e) blast
  also have "\<dots> \<longleftrightarrow>
          (\<exists>r u x. path_root r \<and> u \<noteq> [] \<and> (\<forall>c \<in> set u. \<not> is_space c) \<and> input_ext x
             \<and> tok = r @ u @ ''.'' @ x)"
    unfolding r b d by blast
  also have "\<dots> \<longleftrightarrow> path_token tok"
    unfolding path_token_def by blast
  finally show ?thesis .
qed

lemma group_tail:
  assumes "(c', s') \<in> set (ms (Seq (Group (Plus (Atom p))) Eol) (c1, m))"
  shows "c' = Some m \<and> m \<noteq> []"
proof -
  from assms obtain st2 where st2: "st2 \<in> set (ms (Group (Plus (Atom p))) (c1, m))"
    and fin: "(c', s') \<in> set (ms Eol st2)"
    unfolding ms_Seq_set by blast
  obtain c2 s2 where st2_eq: "st2 = (c2, s2)" by (cases st2)
  from fin st2_eq have e: "s2 = []" "c' = c2"
    by (auto simp del: ms.simps simp add: ms.simps(8) split: if_splits)
  from st2 st2_eq obtain x where
    x: "(x, s2) \<in> set (ms (Plus (Atom p)) (c1, m))"
    and c2: "c2 = Some (take (length m - length s2) m)"
    by (auto simp del: ms.simps simp add: ms.simps(7))
  from x have "s2 \<in> rems (Plus (Atom p)) m" by (rule ms_in_rems)
  with e have "m \<noteq> []" by (auto simp: rems_Plus_Atom simp del: rems.simps)
  moreover from c2 e have "c' = Some m" by simp
  ultimately show ?thesis by blast
qed

lemma match_at_labelled:
  assumes "match_at (labelled short long) line = Some m"
  shows "m \<noteq> [] \<and> (\<exists>w. line = w @ m)"
proof -
  define a where "a = Star ws"
  define b where "b = Alt (Seq (liti short) (Seq (Star ws) (Seq colon_or_dash (Star ws))))
                 (Seq (liti long) (Seq (Star ws) (Seq colon_or_dash (Star ws))))"
  define g where "g = Seq (Group (Plus (Atom is_dot))) Eol"
  have shape: "labelled short long = Seq a (Seq b g)"
    by (simp only: labelled_def a_def b_def g_def)
  from assms obtain rest tl where "ms (Seq a (Seq b g)) (None, line) = (Some m, rest) # tl"
    unfolding shape match_at_def by (auto simp del: ms.simps split: list.splits)
  then have "(Some m, rest) \<in> set (ms (Seq a (Seq b g)) (None, line))"
    by (simp del: ms.simps)
  then obtain st0 st1 where st0: "st0 \<in> set (ms a (None, line))"
    and st1: "st1 \<in> set (ms b st0)" and fin: "(Some m, rest) \<in> set (ms g st1)"
    unfolding ms_Seq_set by blast
  obtain c0 m0 where st0_eq: "st0 = (c0, m0)" by (cases st0)
  obtain c1 m1 where st1_eq: "st1 = (c1, m1)" by (cases st1)
  from fin st1_eq have "Some m = Some m1 \<and> m1 \<noteq> []"
    unfolding g_def by (auto dest: group_tail simp del: ms.simps)
  then have m: "m1 = m" "m \<noteq> []" by simp_all
  from st0 st0_eq have "m0 \<in> rems a line" by (auto dest: ms_in_rems simp del: ms.simps)
  then obtain w where w: "line = w @ m0" by (auto dest: rems_suffix simp del: rems.simps)
  from st1 st0_eq st1_eq have "m1 \<in> rems b m0" by (auto dest: ms_in_rems simp del: ms.simps)
  then obtain w' where "m0 = w' @ m1" by (auto dest: rems_suffix simp del: rems.simps)
  with w m have "line = (w @ w') @ m" by simp
  with m show ?thesis by blast
qed

subsection \<open>The capture group takes part in every match\<close>

lemma ms_capture_kept:
  "(c', s') \<in> set (ms r st) \<Longrightarrow> fst st \<noteq> None \<Longrightarrow> c' \<noteq> None"
proof (induction r st arbitrary: c' s' rule: ms.induct)
  case (1 p c s)
  then show ?case by (cases s) (auto split: if_splits)
next
  case (2 st)
  then show ?case by (cases st) auto
next
  case (3 a b st)
  from "3.prems"(1) obtain m where m: "m \<in> set (ms a st)" and in_b: "(c', s') \<in> set (ms b m)"
    unfolding ms_Seq_set by blast
  obtain c1 s1 where m_eq: "m = (c1, s1)" by (cases m)
  from "3.IH"(1) [of c1 s1] m m_eq "3.prems"(2) have "fst m \<noteq> None" by simp
  with "3.IH"(2) [OF m in_b] show ?case by simp
next
  case (4 a b st)
  from "4.prems"(1) have "(c', s') \<in> set (ms a st) \<or> (c', s') \<in> set (ms b st)" by simp
  with "4.IH" "4.prems"(2) show ?case by blast
next
  case (5 a c s)
  from "5.prems"(1) consider "(c', s') = (c, s)"
    | st where "st \<in> set (ms a (c, s))" "length (snd st) < length s"
        "(c', s') \<in> set (ms (Star a) st)"
    unfolding ms_Star_set by blast
  then show ?case
  proof cases
    case 1
    with "5.prems"(2) show ?thesis by (simp del: ms.simps)
  next
    case 2
    obtain c1 s1 where st_eq: "st = (c1, s1)" by (cases st)
    from "5.IH"(1) [of c1 s1] 2(1) st_eq "5.prems"(2) have c1: "c1 \<noteq> None"
      by (simp del: ms.simps)
    from 2(2) st_eq have len: "length s1 < length s" by simp
    from 2(1) st_eq have mem: "(c1, s1) \<in> set (ms a (c, s))" by (simp del: ms.simps)
    from 2(3) st_eq have rec: "(c', s') \<in> set (ms (Star a) (c1, s1))" by (simp del: ms.simps)
    from c1 have "fst (c1, s1) \<noteq> None" by simp
    from "5.IH"(2) [OF mem refl len rec this] show ?thesis .
  qed
next
  case (6 a c s)
  from "6.prems"(1) consider "(c', s') = (c, s)"
    | st where "st \<in> set (ms a (c, s))" "length (snd st) < length s"
        "(c', s') \<in> set (ms (Lazy a) st)"
    unfolding ms_Lazy_set by blast
  then show ?case
  proof cases
    case 1
    with "6.prems"(2) show ?thesis by (simp del: ms.simps)
  next
    case 2
    obtain c1 s1 where st_eq: "st = (c1, s1)" by (cases st)
    from "6.IH"(1) [of c1 s1] 2(1) st_eq "6.prems"(2) have c1: "c1 \<noteq> None"
      by (simp del: ms.simps)
    from 2(2) st_eq have len: "length s1 < length s" by simp
    from 2(1) st_eq have mem: "(c1, s1) \<in> set (ms a (c, s))" by (simp del: ms.simps)
    from 2(3) st_eq have rec: "(c', s') \<in> set (ms (Lazy a) (c1, s1))" by (simp del: ms.simps)
    from c1 have "fst (c1, s1) \<noteq> None" by simp
    from "6.IH"(2) [OF mem refl len rec this] show ?thesis .
  qed
next
  case (7 a c s)
  from "7.prems"(1) show ?case by (auto simp del: ms.simps simp add: ms.simps(7))
next
  case (8 c s)
  then show ?case by (auto split: if_splits)
qed

lemma ms_Group_captures: "(c', s') \<in> set (ms (Group g) st) \<Longrightarrow> c' \<noteq> None"
  by (cases st) (auto simp del: ms.simps simp add: ms.simps(7))

lemma ms_after_Group_captures:
  assumes "(c', s') \<in> set (ms (Seq (Group g) d) st)"
  shows "c' \<noteq> None"
proof -
  from assms obtain m where m: "m \<in> set (ms (Group g) st)" and d: "(c', s') \<in> set (ms d m)"
    unfolding ms_Seq_set by blast
  obtain c1 s1 where m_eq: "m = (c1, s1)" by (cases m)
  from m m_eq have "c1 \<noteq> None" by (auto dest: ms_Group_captures)
  with ms_capture_kept [OF d] m_eq show ?thesis by simp
qed

lemma run_rx_captures:
  assumes "(c', s') \<in> set (ms run_rx st)"
  shows "c' \<noteq> None"
proof -
  define a where "a = lit ''<w:t''"
  define b where "b = Star (Atom (\<lambda>c. c \<noteq> CHR ''>''))"
  define g where "g = Seq (Group (Lazy (Atom is_dot))) (lit ''</w:t>'')"
  have shape: "run_rx = Seq a (Seq b (Seq (ch CHR ''>'') g))"
    by (simp only: run_rx_def a_def b_def g_def)
  from assms obtain m where "(c', s') \<in> set (ms g m)"
    unfolding shape ms_Seq_set by blast
  then show ?thesis unfolding g_def by (rule ms_after_Group_captures)
qed

lemma match_all_captures: "None \<notin> set (match_all run_rx xml)"
proof (induction run_rx xml rule: match_all.induct)
  case 1
  show ?case
  proof (cases "ms run_rx (None, [])")
    case Nil
    then show ?thesis by simp
  next
    case (Cons st sts)
    obtain c rest where "st = (c, rest)" by (cases st)
    with Cons run_rx_captures [of c rest "(None, [])"] show ?thesis by auto
  qed
next
  case (2 x xs)
  show ?case
  proof (cases "ms run_rx (None, x # xs)")
    case Nil
    with 2 show ?thesis by simp
  next
    case (Cons st sts)
    obtain c rest where st: "st = (c, rest)" by (cases st)
    with Cons run_rx_captures [of c rest "(None, x # xs)"] have "c \<noteq> None" by simp
    with 2 Cons st show ?thesis by (cases "length rest < length (x # xs)") auto
  qed
qed

lemma labelled_captures:
  assumes "(c', s') \<in> set (ms (labelled short long) st)"
  shows "c' \<noteq> None"
proof -
  define a where "a = Star ws"
  define b where "b = Alt (Seq (liti short) (Seq (Star ws) (Seq colon_or_dash (Star ws))))
                 (Seq (liti long) (Seq (Star ws) (Seq colon_or_dash (Star ws))))"
  define g where "g = Seq (Group (Plus (Atom is_dot))) Eol"
  have shape: "labelled short long = Seq a (Seq b g)"
    by (simp only: labelled_def a_def b_def g_def)
  from assms obtain m where "(c', s') \<in> set (ms g m)"
    unfolding shape ms_Seq_set by blast
  then show ?thesis unfolding g_def by (rule ms_after_Group_captures)
qed

lemma match_at_labelled_None:
  "match_at (labelled short long) line = None \<longleftrightarrow> ms (labelled short long) (None, line) = []"
proof (cases "ms (labelled short long) (None, line)")
  case Nil
  then show ?thesis by (simp add: match_at_def)
next
  case (Cons st sts)
  obtain c rest where st: "st = (c, rest)" by (cases st)
  with Cons labelled_captures [of c rest short long "(None, line)"] have "c \<noteq> None" by simp
  with Cons st show ?thesis by (simp add: match_at_def)
qed

lemmas rx_defs =
  test_at_def match_at_def replace_at_def split_rx_def Plus_def Opt_def ch_def ci_def
  ascii_fold_def is_digit_def is_dot_def ascii_letter_def ws_def is_space_def trim_def
  safe_def safe_char_def pathLike_def run_rx_def colon_or_dash_def labelled_def
  qMatch_def aMatch_def header_word_def label_rx_def bullet_rx_def

section \<open>Properties of the download and preview endpoints\<close>

subsection \<open>Trimmed lines\<close>

lemma trim_empty_iff: "trim s = [] \<longleftrightarrow> (\<forall>c \<in> set s. is_space c)"
proof -
  have "trim s = [] \<longleftrightarrow> (\<forall>c \<in> set (dropWhile is_space s). is_space c)"
    by (simp add: trim_def dropWhile_eq_Nil_conv)
  also have "\<dots> \<longleftrightarrow> (\<forall>c \<in> set s. is_space c)"
  proof
    assume a: "\<forall>c \<in> set (dropWhile is_space s). is_space c"
    have "dropWhile is_space s = []"
    proof (rule ccontr)
      assume "dropWhile is_space s \<noteq> []"
      then have "\<not> is_space (hd (dropWhile is_space s))" by (rule hd_dropWhile)
      moreover from \<open>dropWhile is_space s \<noteq> []\<close>
      have "hd (dropWhile is_space s) \<in> set (dropWhile is_space s)" by simp
      ultimately show False using a by blast
    qed
    then show "\<forall>c \<in> set s. is_space c" by (simp add: dropWhile_eq_Nil_conv)
  next
    assume "\<forall>c \<in> set s. is_space c"
    then show "\<forall>c \<in> set (dropWhile is_space s). is_space c"
      by (auto dest: set_dropWhileD)
  qed
  finally show ?thesis .
qed

lemma trim_settled: "trim t \<noteq> [] \<Longrightarrow> settled_line (trim t)"
proof -
  assume ne: "trim t \<noteq> []"
  let ?d = "dropWhile is_space (rev (dropWhile is_space t))"
  from ne have d: "?d \<noteq> []" by (simp add: trim_def)
  then have "\<not> is_space (hd ?d)" by (rule hd_dropWhile)
  moreover from d have "last (rev ?d) = hd ?d" by (simp add: last_rev)
  ultimately show ?thesis using ne by (simp add: settled_line_def trim_def)
qed

lemma flashcard_lines_settled: "\<forall>l \<in> set (flashcard_lines texts). settled_line l"
  by (auto simp: flashcard_lines_def trim_settled)

lemma tail_trim_nonempty:
  assumes "settled_line line" and "line = w @ m" and "m \<noteq> []"
  shows "trim m \<noteq> []"
proof -
  from assms(2,3) have "last line = last m" by simp
  with assms(1) have "\<not> is_space (last m)" by (simp add: settled_line_def)
  moreover from assms(3) have "last m \<in> set m" by simp
  ultimately show ?thesis by (auto simp: trim_empty_iff)
qed

lemma qMatch_trim:
  assumes "settled_line line" and "qMatch line = Some m"
  shows "trim m \<noteq> []"
proof -
  from assms(2) have "match_at (labelled ''Q'' ''Question'') line = Some m"
    by (simp only: qMatch_def)
  from match_at_labelled [OF this] obtain w where "line = w @ m" "m \<noteq> []" by blast
  with assms(1) show ?thesis by (rule tail_trim_nonempty)
qed

subsection \<open>The pairing loop\<close>

lemma pair_step_spec:
  assumes "settled_line line" and "currentQ \<noteq> Some []"
  shows "snd (pair_step (cards, currentQ) line) \<noteq> Some []
         \<and> (\<forall>rest. fst (pair_step (cards, currentQ) line)
                    @ spec_pairing classify (snd (pair_step (cards, currentQ) line)) rest
                  = cards @ spec_pairing classify currentQ (line # rest))"
proof (cases "qMatch line")
  case (Some m)
  from qMatch_trim [OF assms(1) Some] have "trim m \<noteq> []" .
  with Some assms(2) show ?thesis
    by (cases currentQ) (auto simp: classify_def)
next
  case None
  note noq = this
  show ?thesis
  proof (cases "aMatch line")
    case (Some m)
    with noq assms(2) show ?thesis
      by (cases currentQ) (auto simp: classify_def)
  next
    case None
    with noq assms show ?thesis
      by (cases currentQ) (auto simp: classify_def settled_line_def)
  qed
qed

lemma pair_loop_spec:
  assumes "\<forall>l \<in> set lines. settled_line l" and "currentQ \<noteq> Some []"
  shows "pair_finish (foldl pair_step (cards, currentQ) lines)
         = cards @ spec_pairing classify currentQ lines"
  using assms
proof (induction lines arbitrary: cards currentQ)
  case Nil
  then show ?case by (cases currentQ) (simp_all add: pair_finish_def)
next
  case (Cons line lines)
  obtain cards' q' where st: "pair_step (cards, currentQ) line = (cards', q')"
    by (cases "pair_step (cards, currentQ) line")
  from Cons.prems have "settled_line line" by simp
  from pair_step_spec [OF this Cons.prems(2), of cards] st
  have q': "q' \<noteq> Some []"
    and eq: "cards' @ spec_pairing classify q' lines
             = cards @ spec_pairing classify currentQ (line # lines)"
    by simp_all
  from Cons.prems have "\<forall>l \<in> set lines. settled_line l" by simp
  from Cons.IH [OF this q', of cards'] eq st show ?case
    by (simp del: pair_step.simps spec_pairing.simps)
qed

lemma inertia_lines: "flashcard_lines inertia_runs = inertia_runs"
  by (simp add: flashcard_lines_def inertia_runs_def rx_defs)

lemma inertia_pairs:
  "pair_cards inertia_runs
   = [Card ''What is inertia?'' ''Resistance to change in motion'', Card ''Random fact'' []]"
  by (simp add: pair_cards_def pair_finish_def inertia_runs_def rx_defs)

text \<open>
  C4, as stated, fails. Read as the words say, a run with a hyphen after the label has no
  \<^verbatim>\<open>Q:\<close> prefix and is the answer of the pending question, and a run that is the bare
  prefix \<^verbatim>\<open>Q:\<close> starts a question; the handler takes the first for a question and the
  second for a plain run.
\<close>

theorem literal_prefix_counterexample:
  "pair_cards (flashcard_lines [''Alpha beta gamma'', ''Q - delta epsilon''])
     = [Card ''Alpha beta gamma'' [], Card ''delta epsilon'' []]
   \<and> spec_pairing literal_classify None (flashcard_lines [''Alpha beta gamma'', ''Q - delta epsilon''])
     = [Card ''Alpha beta gamma'' ''Q - delta epsilon'']
   \<and> pair_cards (flashcard_lines [''Alpha beta gamma'', ''Q:''])
     = [Card ''Alpha beta gamma'' ''Q:'']
   \<and> spec_pairing literal_classify None (flashcard_lines [''Alpha beta gamma'', ''Q:''])
     = [Card ''Alpha beta gamma'' [], Card [] []]"
  by (simp add: pair_cards_def pair_finish_def flashcard_lines_def literal_classify_def
        has_prefix_ci_def rx_defs)

text \<open>
  C4, amended. For every sequence of text runs, the cards paired from the filtered runs
  are those of the rules of the specification, where a question run is one that matches
  \<^verbatim>\<open>/^\s*(?:Q\s*[:\-]\s*|Question\s*[:\-]\s*)(.+)$/i\<close>, an answer run one that matches the
  same pattern with \<^verbatim>\<open>A\<close> and \<^verbatim>\<open>Answer\<close>, the text of either is the trimmed capture, and
  every other run is plain. The three runs of the example give the two cards, none of
  them dropped by the header rule.
\<close>

theorem pairing_follows_rules:
  "pair_cards (flashcard_lines texts) = spec_pairing classify None (flashcard_lines texts)
   \<and> flashcards inertia_runs
       = [Card ''What is inertia?'' ''Resistance to change in motion'', Card ''Random fact'' []]
   \<and> drop_header (pair_cards (flashcard_lines inertia_runs))
       = pair_cards (flashcard_lines inertia_runs)"
proof (intro conjI)
  show "pair_cards (flashcard_lines texts) = spec_pairing classify None (flashcard_lines texts)"
    using pair_loop_spec [OF flashcard_lines_settled, of None "[]" texts]
    by (simp add: pair_cards_def)
  show "drop_header (pair_cards (flashcard_lines inertia_runs))
          = pair_cards (flashcard_lines inertia_runs)"
    unfolding inertia_lines inertia_pairs
    by (simp add: drop_header_def looksHeader_def rx_defs)
  then show "flashcards inertia_runs
       = [Card ''What is inertia?'' ''Resistance to change in motion'', Card ''Random fact'' []]"
    unfolding flashcards_def inertia_lines inertia_pairs
    by (simp add: stripLabel_def rx_defs)
qed

theorem pairing_follows_rules_witness:
  "spec_pairing classify None (flashcard_lines inertia_runs)
     = [Card ''What is inertia?'' ''Resistance to change in motion'', Card ''Random fact'' []]
   \<and> cards_reply cards_disk ''/srv/app/outputs/flashcards.docx''
     = CardsReply [Card ''What is inertia?'' ''Resistance to change in motion'',
                   Card ''Random fact'' []]"
proof -
  have "spec_pairing classify None (flashcard_lines inertia_runs)
          = pair_cards (flashcard_lines inertia_runs)"
    using pairing_follows_rules [of inertia_runs] by simp
  then have a: "spec_pairing classify None (flashcard_lines inertia_runs)
     = [Card ''What is inertia?'' ''Resistance to change in motion'', Card ''Random fact'' []]"
    unfolding inertia_lines inertia_pairs .
  have "text_runs (''<w:p><w:r><w:t>Q: What is inertia?</w:t></w:r></w:p>''
                   @ ''<w:p><w:r><w:t xml:space=\"preserve\">A: Resistance to change in motion</w:t></w:r></w:p>''
                   @ ''<w:p><w:r><w:t>Random fact</w:t></w:r></w:p>'') = inertia_runs"
    by (simp add: text_runs_def inertia_runs_def rx_defs)
  then have "cards_reply cards_disk ''/srv/app/outputs/flashcards.docx''
               = CardsReply (flashcards inertia_runs)"
    by (simp add: cards_reply_def cards_disk_def)
  with a pairing_follows_rules [of inertia_runs] show ?thesis by simp
qed

subsection \<open>The filter of the previews\<close>

text \<open>
  C5, as stated, fails: a run that only ends in a path is removed as well, since the
  pattern is not anchored at the start of the run.
\<close>

theorem filter_not_entire_counterexample:
  "\<not> entire_path ''See /tmp/ch1.pdf''
   \<and> preview_filter [''See /tmp/ch1.pdf''] = []
   \<and> preview_html [''See /tmp/ch1.pdf'', ''Newton's Second Law'']
       = ''<div><p>Newton's Second Law</p></div>''"
  by (simp add: entire_path_def preview_filter_def preview_html_def rx_defs)

text \<open>
  C5, amended. The filter of the previews removes exactly the runs that end in a path
  token: a drive prefix, a UNC prefix or a slash, then code units that are not white
  space, then one of the extensions \<^verbatim>\<open>.pdf\<close>, \<^verbatim>\<open>.txt\<close>, \<^verbatim>\<open>.docx\<close> in any case, at the very
  end of the run. The run \<^verbatim>\<open>C:\notes\chapter1.pdf\<close> is removed and the run
  \<^verbatim>\<open>Newton's Second Law\<close> is kept.
\<close>

theorem filter_removes_path_endings:
  "preview_filter texts = filter (\<lambda>t. \<not> ends_in_path_token t) texts
   \<and> preview_filter [windows_path, ''Newton's Second Law''] = [''Newton's Second Law'']"
proof
  show "preview_filter texts = filter (\<lambda>t. \<not> ends_in_path_token t) texts"
    by (simp add: preview_filter_def ends_in_path_token_def test_from_suffix pathLike_token)
  show "preview_filter [windows_path, ''Newton's Second Law''] = [''Newton's Second Law'']"
    by (simp add: preview_filter_def windows_path_def rx_defs)
qed

theorem filter_removes_path_endings_witness:
  "filter (\<lambda>t. \<not> ends_in_path_token t) [windows_path, ''Newton's Second Law'']
     = [''Newton's Second Law'']
   \<and> preview_html [windows_path, ''Newton's Second Law'']
     = ''<div><p>Newton's Second Law</p></div>''"
proof -
  note inst = filter_removes_path_endings [of "[windows_path, ''Newton's Second Law'']"]
  from inst have b: "preview_filter [windows_path, ''Newton's Second Law'']
                       = [''Newton's Second Law'']"
    by (rule conjunct2)
  from inst have "preview_filter [windows_path, ''Newton's Second Law'']
                    = filter (\<lambda>t. \<not> ends_in_path_token t) [windows_path, ''Newton's Second Law'']"
    by (rule conjunct1)
  with b have a: "filter (\<lambda>t. \<not> ends_in_path_token t) [windows_path, ''Newton's Second Law'']
             = [''Newton's Second Law'']"
    by (simp only:)
  from b have "preview_html [windows_path, ''Newton's Second Law'']
                 = ''<div><p>Newton's Second Law</p></div>''"
    by (simp add: preview_html_def)
  with a show ?thesis by simp
qed

subsection \<open>The download endpoint\<close>

text \<open>
  C9. For every name that is not of the pattern \<^verbatim>\<open>^[A-Za-z0-9_.-]+\.docx$\<close> (a stem of
  one or more letters, digits, underscores, dots and hyphens, followed by \<^verbatim>\<open>.docx\<close>),
  the download endpoint answers 400 whatever the file system holds: no file is looked
  up or sent.
\<close>

lemma slash_not_safe:
  assumes "CHR ''/'' \<in> set name"
  shows "\<not> safe_name name"
proof
  assume "safe_name name"
  then obtain stem where stem: "\<forall>c \<in> set stem. safe_char c" "name = stem @ ''.docx''"
    by (auto simp: safe_name_def)
  have no: "\<not> safe_char CHR ''/''"
    by (simp add: safe_char_def ascii_letter_def is_digit_def)
  from assms stem(2) have "CHR ''/'' \<in> set stem" by auto
  with stem(1) no show False by blast
qed

theorem download_rejects_unsafe_names:
  assumes "\<not> safe_name name"
  shows "download env fs name = TextReply 400 ''Invalid file''"
  using assms by (simp add: download_def safe_names safe_name_def)

theorem download_rejects_unsafe_names_witness:
  "\<not> safe_name ''../../etc/passwd.docx''
   \<and> download demo_env cards_disk ''../../etc/passwd.docx'' = TextReply 400 ''Invalid file''"
proof -
  have "CHR ''/'' \<in> set ''../../etc/passwd.docx''" by simp
  then have a: "\<not> safe_name ''../../etc/passwd.docx''" by (rule slash_not_safe)
  from download_rejects_unsafe_names [OF a] a show ?thesis by blast
qed

subsection \<open>The file parameter of the previews\<close>

text \<open>
  C10. Each preview endpoint reads the file that \<^verbatim>\<open>path.join\<close> gives for the output
  directory and a chosen name: the default of the endpoint when the \<^verbatim>\<open>file\<close> value is
  empty or does not end in \<^verbatim>\<open>.docx\<close>, and the value as given when it does. A value that
  ends in \<^verbatim>\<open>.docx\<close> is used also when the download endpoint would reject it as a name.
\<close>

theorem preview_file_parameter:
  "summary_preview env fs v
     = html_preview ''No summary'' fs
         (path_join env [OUTPUTS_DIR env, chosen_file ''summaries.docx'' v])
   \<and> flashcards_preview env fs v
     = html_preview ''No flashcards'' fs
         (path_join env [OUTPUTS_DIR env, chosen_file ''flashcards.docx'' v])
   \<and> formulas_preview env fs v
     = html_preview ''No formula sheet'' fs
         (path_join env [OUTPUTS_DIR env, chosen_file ''formula_sheet.docx'' v])
   \<and> flashcards_json env fs v
     = cards_reply fs (path_join env [OUTPUTS_DIR env, chosen_file ''flashcards.docx'' v])
   \<and> (ends_with ''.docx'' (file_param v) \<and> \<not> safe_name (file_param v) \<longrightarrow>
        chosen_file dflt v = file_param v
        \<and> download env fs (file_param v) = TextReply 400 ''Invalid file'')"
proof -
  have "docx_path env d v = path_join env [OUTPUTS_DIR env, chosen_file d v]" for d
    by (auto simp: docx_path_def chosen_file_def Let_def)
  moreover have "ends_with ''.docx'' (file_param v) \<Longrightarrow> chosen_file dflt v = file_param v"
    by (auto simp: chosen_file_def ends_with_def)
  moreover have "\<not> safe_name (file_param v) \<Longrightarrow>
                 download env fs (file_param v) = TextReply 400 ''Invalid file''"
    by (simp add: download_def safe_names safe_name_def)
  ultimately show ?thesis
    by (simp add: summary_preview_def flashcards_preview_def formulas_preview_def
          flashcards_json_def)
qed

theorem preview_file_parameter_witness:
  "ends_with ''.docx'' (file_param (Some (QStr ''../inputs/notes.docx'')))
   \<and> \<not> safe_name (file_param (Some (QStr ''../inputs/notes.docx'')))
   \<and> download demo_env cards_disk ''../inputs/notes.docx'' = TextReply 400 ''Invalid file''
   \<and> summary_preview demo_env cards_disk (Some (QStr ''../inputs/notes.docx''))
       = HtmlReply ''<div><p>private notes</p></div>''
   \<and> summary_preview demo_env cards_disk (Some (QStr ''notes.txt''))
       = JsonError 404 ''No summary''
   \<and> flashcards_json demo_env cards_disk (Some (QArr [QStr ''a'', QObj]))
       = flashcards_json demo_env cards_disk None"
proof -
  let ?v = "Some (QStr ''../inputs/notes.docx'')"
  have a: "ends_with ''.docx'' (file_param ?v)"
    by (simp add: file_param_def ends_with_def)
  have "\<not> test_at safe ''../inputs/notes.docx''"
    by (simp add: rx_defs)
  then have "\<not> safe_name ''../inputs/notes.docx''"
    unfolding safe_names safe_name_def .
  then have b: "\<not> safe_name (file_param ?v)"
    by (simp add: file_param_def)
  have c: "chosen_file ''summaries.docx'' ?v = ''../inputs/notes.docx''"
    and d: "chosen_file ''summaries.docx'' (Some (QStr ''notes.txt'')) = ''summaries.docx''"
    and e: "chosen_file ''flashcards.docx'' (Some (QArr [QStr ''a'', QObj]))
              = chosen_file ''flashcards.docx'' None"
    by (simp_all add: chosen_file_def file_param_def ends_with_def)
  have f: "text_runs ''<w:p><w:r><w:t>private notes</w:t></w:r></w:p>'' = [''private notes'']"
    by (simp add: text_runs_def rx_defs)
  have g: "preview_html [''private notes''] = ''<div><p>private notes</p></div>''"
    by (simp add: preview_html_def preview_filter_def rx_defs)
  from preview_file_parameter [of demo_env cards_disk ?v "''summaries.docx''"] a b
  have "download demo_env cards_disk ''../inputs/notes.docx'' = TextReply 400 ''Invalid file''"
    and "summary_preview demo_env cards_disk ?v
           = html_preview ''No summary'' cards_disk
               (path_join demo_env [OUTPUTS_DIR demo_env, chosen_file ''summaries.docx'' ?v])"
    by (simp_all add: file_param_def)
  moreover from preview_file_parameter [of demo_env cards_disk "Some (QStr ''notes.txt'')"]
  have "summary_preview demo_env cards_disk (Some (QStr ''notes.txt''))
           = html_preview ''No summary'' cards_disk
               (path_join demo_env [OUTPUTS_DIR demo_env,
                  chosen_file ''summaries.docx'' (Some (QStr ''notes.txt''))])"
    by simp
  moreover from preview_file_parameter [of demo_env cards_disk "Some (QArr [QStr ''a'', QObj])"]
    preview_file_parameter [of demo_env cards_disk None]
  have "flashcards_json demo_env cards_disk (Some (QArr [QStr ''a'', QObj]))
       = flashcards_json demo_env cards_disk None"
    unfolding e by simp
  ultimately show ?thesis
    using a b unfolding c d
    by (simp add: html_preview_def cards_disk_def OUTPUTS_DIR_def demo_env_def f g)
qed

end
